theory Spec2Isabelle
  imports Main "HOL-Library.Word"
begin

unbundle bit_operations_syntax

section \<open>Basic types of \<^verbatim>\<open>dht.h\<close>\<close>

text \<open>
  The header \<^verbatim>\<open>include/opendht/dht.h\<close> declares the class \<^verbatim>\<open>Dht\<close> and its nested
  structures. Identifiers (\<^verbatim>\<open>InfoHash\<close>) are 160-bit values, blobs are byte vectors,
  \<^verbatim>\<open>Value::Id\<close> is a 64-bit and \<^verbatim>\<open>ValueType::Id\<close> a 16-bit unsigned integer.

  A \<^verbatim>\<open>time_point\<close> and a \<^verbatim>\<open>duration\<close> are tick counts of the steady clock, here
  nanoseconds held in an \<^typ>\<open>int\<close>; \<^verbatim>\<open>time_point::min()\<close> is the least 64-bit count.
  The C++ representation is a signed 64-bit count. Where a sum can leave the 64-bit
  range at values that the header itself provides for (a request that still carries
  \<^verbatim>\<open>time_point::min()\<close>, together with the expiration of a registered value type),
  the result is wrapped into the range by \<open>wrap64\<close>, as two's complement
  arithmetic does. The other sums take a clock reading, or \<^verbatim>\<open>time_point::min()\<close> plus
  a positive constant, and stay in the range.
\<close>

type_synonym InfoHash = "160 word"
type_synonym Blob = "8 word list"
type_synonym Value_Id = "64 word"
type_synonym ValueType_Id = "16 word"
type_synonym time_point = int
type_synonym duration = int

definition time_point_min :: time_point where
  "time_point_min = - (2 ^ 63)"

text \<open>
  \<open>wrap64\<close> brings an integer into the signed 64-bit range modulo \<open>2 ^ 64\<close>;
  \<open>tick_range\<close> says that an integer lies in that range.
\<close>

definition wrap64 :: "int \<Rightarrow> int" where
  "wrap64 x = (x + 2 ^ 63) mod 2 ^ 64 - 2 ^ 63"


definition seconds :: "int \<Rightarrow> duration" where
  "seconds n = n * 1000000000"

definition minutes :: "int \<Rightarrow> duration" where
  "minutes n = seconds (60 * n)"

definition DEFAULT_STORAGE_LIMIT :: nat where
  "DEFAULT_STORAGE_LIMIT = 1024 * 1024 * 64"

definition SEARCH_NODES :: nat where
  "SEARCH_NODES = 14"

definition REANNOUNCE_MARGIN :: duration where
  "REANNOUNCE_MARGIN = seconds 5"

definition LISTEN_EXPIRE_TIME :: duration where
  "LISTEN_EXPIRE_TIME = seconds 30"

definition TOKEN_SIZE :: nat where
  "TOKEN_SIZE = 64"

subsection \<open>Values and value types\<close>

text \<open>
  Modelled from the spec: \<^verbatim>\<open>Value\<close> and \<^verbatim>\<open>ValueType\<close> are declared in
  \<^verbatim>\<open>value.h\<close>, which is not part of the sources. A value is
  \<^verbatim>\<open>{id: u64, type_id, payload, optional owner key, optional signature, optional
  recipient}\<close>; a value type is \<^verbatim>\<open>{id, expiration, store_policy, edit_policy}\<close>, the
  policies deciding whether an incoming value may be accepted, or may supersede the
  stored value with the same id.
\<close>

record Value =
  value_id :: Value_Id
  type_id :: ValueType_Id
  payload :: Blob
  owner :: "Blob option"
  signature :: "Blob option"
  recipient :: "InfoHash option"

record ValueType =
  vt_id :: ValueType_Id
  expiration :: duration
  store_policy :: "InfoHash \<Rightarrow> Value \<Rightarrow> bool"
  edit_policy :: "InfoHash \<Rightarrow> Value \<Rightarrow> Value \<Rightarrow> bool"

section \<open>Registered value types\<close>

text \<open>
  \<^verbatim>\<open>std::map<ValueType::Id, ValueType> types\<close> is a finite map.
  \<^verbatim>\<open>registerType\<close> is \<^verbatim>\<open>types[type.id] = type\<close>; \<^verbatim>\<open>getType\<close> looks the id up and falls
  back to \<^verbatim>\<open>ValueType::USER_DATA\<close>. That constant is defined in \<^verbatim>\<open>value.h\<close>, so it is
  a parameter here.
\<close>

type_synonym TypeStore = "ValueType_Id \<rightharpoonup> ValueType"

definition registerType :: "ValueType \<Rightarrow> TypeStore \<Rightarrow> TypeStore" where
  "registerType ty types = types(vt_id ty \<mapsto> ty)"

definition getType :: "ValueType \<Rightarrow> TypeStore \<Rightarrow> ValueType_Id \<Rightarrow> ValueType" where
  "getType USER_DATA types t = (case types t of None \<Rightarrow> USER_DATA | Some ty \<Rightarrow> ty)"

text \<open>The map of a \<^verbatim>\<open>Dht\<close> after a sequence of \<^verbatim>\<open>registerType\<close> calls, oldest first.\<close>

definition registered :: "ValueType list \<Rightarrow> TypeStore" where
  "registered tys = fold registerType tys Map.empty"

section \<open>Callback adapters\<close>

text \<open>
  A \<^verbatim>\<open>std::function\<close> may have effects and may hold state of its own, so a callback
  is a function on an explicit state \<open>'s\<close> returning its boolean result and the new
  state. An empty \<^verbatim>\<open>std::function\<close> is \<open>None\<close>.

  \<^verbatim>\<open>bindGetCb(GetCallbackSimple cb)\<close> returns the empty function for an empty \<open>cb\<close>, and
  otherwise the lambda
  \<^verbatim>\<open>for (const auto& v : values) if (not cb(v)) return false; return true;\<close>
\<close>

type_synonym ('v, 's) GetCallbackSimple = "'v \<Rightarrow> 's \<Rightarrow> bool \<times> 's"
type_synonym ('v, 's) GetCallback = "'v list \<Rightarrow> 's \<Rightarrow> bool \<times> 's"

fun get_cb_loop :: "('v, 's) GetCallbackSimple \<Rightarrow> ('v, 's) GetCallback" where
  "get_cb_loop cb [] s = (True, s)"
| "get_cb_loop cb (v # vs) s =
     (case cb v s of (ok, s') \<Rightarrow> if \<not> ok then (False, s') else get_cb_loop cb vs s')"

definition bindGetCb :: "('v, 's) GetCallbackSimple option \<Rightarrow> ('v, 's) GetCallback option" where
  "bindGetCb cb = (case cb of None \<Rightarrow> None | Some f \<Rightarrow> Some (get_cb_loop f))"

text \<open>
  To observe which calls the adapter makes, a callback is wrapped so that every call
  appends its argument and its result to a log kept beside the callback's own state.
\<close>

definition logged :: "('v, 's) GetCallbackSimple \<Rightarrow> ('v, 's \<times> ('v \<times> bool) list) GetCallbackSimple" where
  "logged cb v = (\<lambda>(s, log). case cb v s of (ok, s') \<Rightarrow> (ok, (s', log @ [(v, ok)])))"

section \<open>Search nodes\<close>

text \<open>
  Modelled from the spec: \<^verbatim>\<open>Node\<close> is declared in \<^verbatim>\<open>node.h\<close>, which is not part of the
  sources. A node is \<^verbatim>\<open>{id, address, family, last_reply_time, last_ping_time,
  pinged_count}\<close>, and it is expired after 3 consecutive failed requests (no reply after
  several pings); a timely reply resets the count.
\<close>

record Node =
  node_id :: InfoHash
  address :: Blob
  family :: nat
  last_reply_time :: time_point
  last_ping_time :: time_point
  pinged_count :: nat

definition Node_isExpired :: "Node \<Rightarrow> time_point \<Rightarrow> bool" where
  "Node_isExpired n now = (3 \<le> pinged_count n)"

text \<open>
  A \<^verbatim>\<open>NetworkEngine::Request\<close> (declared in \<^verbatim>\<open>network_engine.h\<close>) is read here through
  its fields \<^verbatim>\<open>reply_time\<close> and \<^verbatim>\<open>last_try\<close>; its method \<^verbatim>\<open>pending(now)\<close> is a parameter
  of the functions that call it. A null \<^verbatim>\<open>shared_ptr\<close> is \<open>None\<close>.
\<close>

record Request =
  reply_time :: time_point
  last_try :: time_point

record SearchNode =
  node :: Node
  last_get_reply :: time_point
  getStatus :: "Request option"
  listenStatus :: "Request option"
  acked :: "Value_Id \<rightharpoonup> Request option"
  token :: Blob
  candidate :: bool

text \<open>
  \<^verbatim>\<open>Node::NODE_EXPIRE_TIME\<close> and \<^verbatim>\<open>Node::MAX_RESPONSE_TIME\<close> are constants of \<^verbatim>\<open>node.h\<close>
  and are parameters of the functions below.
\<close>

definition isSynced :: "duration \<Rightarrow> SearchNode \<Rightarrow> time_point \<Rightarrow> bool" where
  "isSynced NODE_EXPIRE_TIME sn now =
     (\<not> Node_isExpired (node sn) now \<and>
      token sn \<noteq> [] \<and> last_get_reply sn \<ge> now - NODE_EXPIRE_TIME)"

definition canGet ::
  "(Request \<Rightarrow> time_point \<Rightarrow> bool) \<Rightarrow> duration \<Rightarrow> SearchNode \<Rightarrow> time_point \<Rightarrow> time_point \<Rightarrow> bool" where
  "canGet pending NODE_EXPIRE_TIME sn now update =
     (\<not> Node_isExpired (node sn) now \<and>
      (now > last_get_reply sn + NODE_EXPIRE_TIME \<or> update > last_get_reply sn) \<and>
      (case getStatus sn of None \<Rightarrow> True | Some r \<Rightarrow> \<not> pending r now))"

definition isAnnounced :: "SearchNode \<Rightarrow> Value_Id \<Rightarrow> ValueType \<Rightarrow> time_point \<Rightarrow> bool" where
  "isAnnounced sn vid ty now =
     (case acked sn vid of
        None \<Rightarrow> False
      | Some None \<Rightarrow> False
      | Some (Some r) \<Rightarrow> wrap64 (reply_time r + expiration ty) > now)"

definition isListening :: "SearchNode \<Rightarrow> time_point \<Rightarrow> bool" where
  "isListening sn now =
     (case listenStatus sn of
        None \<Rightarrow> False
      | Some r \<Rightarrow> reply_time r + LISTEN_EXPIRE_TIME > now)"



definition getListenTime :: "duration \<Rightarrow> SearchNode \<Rightarrow> time_point" where
  "getListenTime MAX_RESPONSE_TIME sn =
     (case listenStatus sn of
        None \<Rightarrow> time_point_min
      | Some r \<Rightarrow>
          max (reply_time r + LISTEN_EXPIRE_TIME - REANNOUNCE_MARGIN)
              (last_try r + MAX_RESPONSE_TIME))"

section \<open>Write tokens\<close>







section \<open>Storage\<close>

text \<open>
  \<^verbatim>\<open>ValueStorage\<close> and \<^verbatim>\<open>Listener\<close> are the structures of \<^verbatim>\<open>dht.h\<close> (a listener's socket
  address is a blob). Of \<^verbatim>\<open>Storage\<close> the map of local listeners, which holds callbacks,
  is left out; no function below reads it. A size (\<^verbatim>\<open>size_t\<close>) is a natural number and
  a size difference (\<^verbatim>\<open>ssize_t\<close>) an integer; the sizes of stored values stay far
  below the 64-bit range.
\<close>

definition MAX_STORAGE_MAINTENANCE_EXPIRE_TIME :: duration where
  "MAX_STORAGE_MAINTENANCE_EXPIRE_TIME = minutes 10"

record ValueStorage =
  data :: Value
  time :: time_point

record Listener =
  listener_id :: InfoHash
  listener_ss :: Blob
  listener_rid :: nat
  listener_time :: time_point

record Storage =
  storage_id :: InfoHash
  maintenance_time :: time_point
  listeners :: "Listener list"
  listener_token :: nat
  storage_values :: "ValueStorage list"
  total_size :: nat

text \<open>The constructor \<^verbatim>\<open>Storage(id, now)\<close>.\<close>

definition Storage_new :: "InfoHash \<Rightarrow> time_point \<Rightarrow> Storage" where
  "Storage_new i now =
     \<lparr>storage_id = i, maintenance_time = now + MAX_STORAGE_MAINTENANCE_EXPIRE_TIME,
      listeners = [], listener_token = 1, storage_values = [], total_size = 0\<rparr>"

definition Storage_empty :: "Storage \<Rightarrow> bool" where
  "Storage_empty st = (storage_values st = [])"

definition valueCount :: "Storage \<Rightarrow> nat" where
  "valueCount st = length (storage_values st)"

definition totalSize :: "Storage \<Rightarrow> nat" where
  "totalSize st = total_size st"


text \<open>
  Modelled from the spec: the size that a value counts for is the size of its payload
  (\<^verbatim>\<open>Value::size\<close> is declared in \<^verbatim>\<open>value.h\<close>).
\<close>

definition Value_size :: "Value \<Rightarrow> nat" where
  "Value_size v = length (payload v)"

text \<open>The first position of a list that satisfies a predicate: \<^verbatim>\<open>std::find_if\<close>.\<close>

fun find_if :: "('a \<Rightarrow> bool) \<Rightarrow> 'a list \<Rightarrow> nat option" where
  "find_if P [] = None"
| "find_if P (x # xs) = (if P x then Some 0 else map_option Suc (find_if P xs))"

text \<open>
  Modelled from the spec: \<^verbatim>\<open>Storage::store\<close> is only declared in \<^verbatim>\<open>dht.h\<close>. By its
  comment there it stores a new value or replaces a previous one, and returns the
  changed entry (null when nothing changed), the size difference and the change of the
  number of values (0 or 1). By the spec: if a value with the same id exists, the
  type's edit policy applies, otherwise its store policy; the value is rejected if
  accepting it would exceed the budget left. The value's type is a parameter.
\<close>

definition Storage_store ::
  "ValueType \<Rightarrow> Storage \<Rightarrow> Value \<Rightarrow> time_point \<Rightarrow> int \<Rightarrow>
   (ValueStorage option \<times> int \<times> int) \<times> Storage" where
  "Storage_store ty st v created size_left =
     (case find_if (\<lambda>vs. value_id (data vs) = value_id v) (storage_values st) of
        Some i \<Rightarrow>
          (let old = data (storage_values st ! i);
               size_diff = int (Value_size v) - int (Value_size old);
               entry = \<lparr>data = v, time = created\<rparr>
           in if edit_policy ty (storage_id st) old v \<and> size_diff \<le> size_left
              then ((Some entry, size_diff, 0),
                    st\<lparr>storage_values := (storage_values st)[i := entry],
                       total_size := nat (int (total_size st) + size_diff)\<rparr>)
              else ((None, 0, 0), st))
      | None \<Rightarrow>
          (let size = int (Value_size v);
               entry = \<lparr>data = v, time = created\<rparr>
           in if store_policy ty (storage_id st) v \<and> size \<le> size_left
              then ((Some entry, size, 1),
                    st\<lparr>storage_values := storage_values st @ [entry],
                       total_size := nat (int (total_size st) + size)\<rparr>)
              else ((None, 0, 0), st)))"

text \<open>
  Modelled from the spec: \<^verbatim>\<open>Storage::expire\<close> is only declared in \<^verbatim>\<open>dht.h\<close>. It drops the
  values whose insert time plus their type's expiration is at most \<open>now\<close>, drops the
  remote listeners older than 30 s, and returns the change of size and of the number
  of values.
\<close>

definition value_expired :: "ValueType \<Rightarrow> TypeStore \<Rightarrow> time_point \<Rightarrow> ValueStorage \<Rightarrow> bool" where
  "value_expired USER_DATA types now vs =
     (time vs + expiration (getType USER_DATA types (type_id (data vs))) \<le> now)"

definition Storage_expire ::
  "ValueType \<Rightarrow> TypeStore \<Rightarrow> Storage \<Rightarrow> time_point \<Rightarrow> (int \<times> int) \<times> Storage" where
  "Storage_expire USER_DATA types st now =
     (let dropped = filter (value_expired USER_DATA types now) (storage_values st);
          kept = filter (\<lambda>vs. \<not> value_expired USER_DATA types now vs) (storage_values st);
          size_diff = - int (sum_list (map (\<lambda>vs. Value_size (data vs)) dropped));
          num_diff = - int (length dropped)
      in ((size_diff, num_diff),
          st\<lparr>storage_values := kept,
             listeners := filter (\<lambda>l. \<not> listener_time l + LISTEN_EXPIRE_TIME < now) (listeners st),
             total_size := nat (int (total_size st) + size_diff)\<rparr>))"

subsection \<open>The store of a node\<close>

text \<open>
  The members of \<^verbatim>\<open>Dht\<close> that hold values: \<^verbatim>\<open>store\<close>, \<^verbatim>\<open>total_values\<close>,
  \<^verbatim>\<open>total_store_size\<close>, \<^verbatim>\<open>max_store_size\<close> and the registered \<^verbatim>\<open>types\<close>.
\<close>

record Dht =
  store :: "Storage list"
  total_values :: nat
  total_store_size :: nat
  max_store_size :: nat
  types :: TypeStore

definition Dht_init :: Dht where
  "Dht_init =
     \<lparr>store = [], total_values = 0, total_store_size = 0,
      max_store_size = DEFAULT_STORAGE_LIMIT, types = Map.empty\<rparr>"

definition setStorageLimit :: "nat \<Rightarrow> Dht \<Rightarrow> Dht" where
  "setStorageLimit limit d = d\<lparr>max_store_size := limit\<rparr>"

definition getStoreSize :: "Dht \<Rightarrow> nat \<times> nat" where
  "getStoreSize d = (total_store_size d, total_values d)"

definition findStorage :: "Dht \<Rightarrow> InfoHash \<Rightarrow> nat option" where
  "findStorage d i = find_if (\<lambda>st. storage_id st = i) (store d)"

text \<open>
  Modelled from the spec: \<^verbatim>\<open>storageStore\<close> and \<^verbatim>\<open>expireStorage\<close> are only declared in
  \<^verbatim>\<open>dht.h\<close>. A storage record is created on the first store under its key; the budget
  left that \<^verbatim>\<open>Storage::store\<close> receives is \<open>max_store_size - total_store_size\<close>; a
  change is added to the totals of the node. Expiry runs \<^verbatim>\<open>Storage::expire\<close> on every
  record, adds the changes to the totals, and evicts the records left with neither
  values nor listeners.
\<close>

definition storageStore ::
  "ValueType \<Rightarrow> Dht \<Rightarrow> InfoHash \<Rightarrow> Value \<Rightarrow> time_point \<Rightarrow> time_point \<Rightarrow> bool \<times> Dht" where
  "storageStore USER_DATA d i v created now =
     (let (k, sts) = (case findStorage d i of
                        Some k \<Rightarrow> (k, store d)
                      | None \<Rightarrow> (length (store d), store d @ [Storage_new i now]));
          size_left = int (max_store_size d) - int (total_store_size d);
          ty = getType USER_DATA (types d) (type_id v)
      in case Storage_store ty (sts ! k) v created size_left of
           ((None, size_diff, num_diff), st') \<Rightarrow> (False, d\<lparr>store := sts\<rparr>)
         | ((Some entry, size_diff, num_diff), st') \<Rightarrow>
             (True, d\<lparr>store := sts[k := st'],
                      total_store_size := nat (int (total_store_size d) + size_diff),
                      total_values := nat (int (total_values d) + num_diff)\<rparr>))"

fun expire_all ::
  "ValueType \<Rightarrow> TypeStore \<Rightarrow> time_point \<Rightarrow> Storage list \<Rightarrow> (int \<times> int) \<times> Storage list" where
  "expire_all USER_DATA tmap now [] = ((0, 0), [])"
| "expire_all USER_DATA tmap now (st # sts) =
     (case Storage_expire USER_DATA tmap st now of
        ((ds, dn), st') \<Rightarrow>
          (case expire_all USER_DATA tmap now sts of
             ((ds', dn'), sts') \<Rightarrow>
               ((ds + ds', dn + dn'),
                (if storage_values st' = [] \<and> listeners st' = [] then sts' else st' # sts'))))"

definition expireStorage :: "ValueType \<Rightarrow> Dht \<Rightarrow> time_point \<Rightarrow> Dht" where
  "expireStorage USER_DATA d now =
     (case expire_all USER_DATA (types d) now (store d) of
        ((size_diff, num_diff), sts) \<Rightarrow>
          d\<lparr>store := sts,
            total_store_size := nat (int (total_store_size d) + size_diff),
            total_values := nat (int (total_values d) + num_diff)\<rparr>)"

text \<open>
  The operations that change the store of a node, and the state a node reaches from
  its initial one by a sequence of them.
\<close>

datatype StoreOp =
  OpStore InfoHash Value time_point time_point
| OpExpire time_point
| OpSetStorageLimit nat
| OpRegisterType ValueType

fun apply_op :: "ValueType \<Rightarrow> StoreOp \<Rightarrow> Dht \<Rightarrow> Dht" where
  "apply_op USER_DATA (OpStore i v created now) d = snd (storageStore USER_DATA d i v created now)"
| "apply_op USER_DATA (OpExpire now) d = expireStorage USER_DATA d now"
| "apply_op USER_DATA (OpSetStorageLimit limit) d = setStorageLimit limit d"
| "apply_op USER_DATA (OpRegisterType ty) d = d\<lparr>types := registerType ty (types d)\<rparr>"

definition run_ops :: "ValueType \<Rightarrow> StoreOp list \<Rightarrow> Dht \<Rightarrow> Dht" where
  "run_ops USER_DATA ops d = fold (apply_op USER_DATA) ops d"


text \<open>The invariant of a storage record, and of the store of a node.\<close>

definition storage_inv :: "Storage \<Rightarrow> bool" where
  "storage_inv st =
     (distinct (map (\<lambda>vs. value_id (data vs)) (storage_values st)) \<and>
      total_size st = sum_list (map (\<lambda>vs. Value_size (data vs)) (storage_values st)))"

definition sum_total_size :: "Storage list \<Rightarrow> nat" where
  "sum_total_size sts = sum_list (map total_size sts)"

definition dht_inv :: "Dht \<Rightarrow> bool" where
  "dht_inv d = ((\<forall>st \<in> set (store d). storage_inv st) \<and>
                sum_total_size (store d) = total_store_size d)"





section \<open>Searches\<close>

text \<open>
  Modelled from the spec: \<^verbatim>\<open>InfoHash\<close> is declared in \<^verbatim>\<open>infohash.h\<close>, which is not part of
  the sources. The distance between two identifiers is their bitwise XOR, read as an
  unsigned big-endian integer; the order of \<^typ>\<open>InfoHash\<close> is that unsigned order.
  An identifier \<open>a\<close> is closer to a target than \<open>b\<close> when its distance is less.
\<close>

definition xor_distance :: "InfoHash \<Rightarrow> InfoHash \<Rightarrow> InfoHash" where
  "xor_distance a b = a XOR b"

definition closer :: "InfoHash \<Rightarrow> InfoHash \<Rightarrow> InfoHash \<Rightarrow> bool" where
  "closer target a b = (xor_distance target a < xor_distance target b)"

text \<open>The constructor \<^verbatim>\<open>SearchNode(node)\<close>, with the default member initialisers.\<close>

definition SearchNode_new :: "Node \<Rightarrow> SearchNode" where
  "SearchNode_new n =
     \<lparr>node = n, last_get_reply = time_point_min, getStatus = None, listenStatus = None,
      acked = Map.empty, token = [], candidate = False\<rparr>"

text \<open>
  Of \<^verbatim>\<open>Search\<close> the pending operations (\<^verbatim>\<open>announce\<close>, \<^verbatim>\<open>callbacks\<close>, \<^verbatim>\<open>listeners\<close>) and
  the scheduler job, which hold callbacks, are left out.
\<close>

record Search =
  search_id :: InfoHash
  search_af :: nat
  tid :: "16 word"
  refill_time :: time_point
  step_time :: time_point
  get_step_time :: time_point
  expired :: bool
  search_done :: bool
  nodes :: "SearchNode list"

text \<open>
  Modelled from the spec: \<^verbatim>\<open>Search::insertNode\<close> is only declared in \<^verbatim>\<open>dht.h\<close> (it
  returns true if the node was not present and was added to the search). By the spec:
  if the node's id is already present, refresh token and reply time and return false;
  else find the insertion point by XOR distance; if the frontier already has 14
  entries and the new node is farther than all, refuse; else insert and truncate
  trailing candidates, read here as the entries beyond the 14 that a frontier keeps.
  The new entry is the one that the constructor \<^verbatim>\<open>SearchNode(node)\<close> builds.
\<close>

definition Search_insertNode :: "Search \<Rightarrow> Node \<Rightarrow> time_point \<Rightarrow> Blob \<Rightarrow> bool \<times> Search" where
  "Search_insertNode sr n now tok =
     (case find_if (\<lambda>sn. node_id (node sn) = node_id n) (nodes sr) of
        Some i \<Rightarrow>
          (False, sr\<lparr>nodes := (nodes sr)[i := (nodes sr ! i)\<lparr>token := tok, last_get_reply := now\<rparr>]\<rparr>)
      | None \<Rightarrow>
          (let pos = (case find_if (\<lambda>sn. closer (search_id sr) (node_id n) (node_id (node sn)))
                             (nodes sr) of
                        None \<Rightarrow> length (nodes sr) | Some p \<Rightarrow> p)
           in if SEARCH_NODES \<le> length (nodes sr) \<and> pos = length (nodes sr)
              then (False, sr)
              else (True, sr\<lparr>nodes := take SEARCH_NODES
                      (take pos (nodes sr) @ [SearchNode_new n] @ drop pos (nodes sr))\<rparr>)))"

definition distances :: "InfoHash \<Rightarrow> SearchNode list \<Rightarrow> InfoHash list" where
  "distances target sns = map (\<lambda>sn. xor_distance target (node_id (node sn))) sns"

definition frontier_inv :: "Search \<Rightarrow> bool" where
  "frontier_inv sr =
     (sorted_wrt (<) (distances (search_id sr) (nodes sr)) \<and> length (nodes sr) \<le> SEARCH_NODES)"

section \<open>Routing tables\<close>

text \<open>
  Modelled from the spec: a bucket holds up to 8 nodes. \<^verbatim>\<open>dht.h\<close> uses the constant
  \<^verbatim>\<open>TARGET_NODES\<close> and does not define it.
\<close>

definition TARGET_NODES :: nat where
  "TARGET_NODES = 8"

text \<open>
  \<^verbatim>\<open>Bucket\<close> is the structure of \<^verbatim>\<open>dht.h\<close> (the cached address is a blob); a
  \<^verbatim>\<open>RoutingTable\<close> is a \<^verbatim>\<open>std::list<Bucket>\<close>, and a bucket iterator is a position in
  the list. \<^verbatim>\<open>Bucket(af)\<close> is the constructor with its default arguments, the first
  identifier being the zero \<^verbatim>\<open>InfoHash\<close>. The member \<^verbatim>\<open>RoutingTable buckets {}\<close> of a
  \<^verbatim>\<open>Dht\<close> is initialised empty, and the default constructor \<^verbatim>\<open>Dht()\<close> leaves it so.
\<close>

record Bucket =
  af :: nat
  first :: InfoHash
  bucket_time :: time_point
  bucket_nodes :: "Node list"
  cached :: Blob

definition Bucket_new :: "nat \<Rightarrow> Bucket" where
  "Bucket_new a =
     \<lparr>af = a, first = 0, bucket_time = time_point_min, bucket_nodes = [], cached = []\<rparr>"

type_synonym RoutingTable = "Bucket list"

definition RoutingTable_default :: RoutingTable where
  "RoutingTable_default = []"

text \<open>
  Modelled from the spec: \<^verbatim>\<open>InfoHash::cmp\<close> is declared in \<^verbatim>\<open>infohash.h\<close>. Identifiers
  are ordered as unsigned big-endian integers; the result is negative, zero or
  positive as the first identifier is less than, equal to or greater than the second.
\<close>

definition InfoHash_cmp :: "InfoHash \<Rightarrow> InfoHash \<Rightarrow> int" where
  "InfoHash_cmp a b = (if a < b then - 1 else if a = b then 0 else 1)"

text \<open>
  \<^verbatim>\<open>contains(bucket, id)\<close>: the id is at least the bucket's first identifier and, unless
  the bucket is the last one, less than the next bucket's first identifier. The
  iterator must be one of the table.
\<close>

definition contains :: "RoutingTable \<Rightarrow> nat \<Rightarrow> InfoHash \<Rightarrow> bool" where
  "contains tbl b i =
     (b < length tbl \<and> InfoHash_cmp (first (tbl ! b)) i \<le> 0 \<and>
      (Suc b = length tbl \<or> InfoHash_cmp i (first (tbl ! Suc b)) < 0))"

definition isEmpty :: "RoutingTable \<Rightarrow> bool" where
  "isEmpty tbl = (tbl = [] \<or> (length tbl = 1 \<and> bucket_nodes (hd tbl) = []))"

text \<open>
  Modelled from the spec: \<^verbatim>\<open>findBucket\<close> and \<^verbatim>\<open>split\<close> are only declared in \<^verbatim>\<open>dht.h\<close>.
  \<^verbatim>\<open>findBucket\<close> locates the bucket whose range contains the id (\<open>None\<close> is \<^verbatim>\<open>end()\<close>).
  \<^verbatim>\<open>split\<close> splits a bucket in two equal parts along its midpoint: the range of bucket
  \<open>b\<close> runs from its first identifier to the next bucket's, or to \<open>2 ^ 160\<close> for the
  last bucket; the new bucket starts at the midpoint and takes the nodes from there
  on. A range of fewer than two identifiers is not split, and \<^verbatim>\<open>split\<close> returns false.
\<close>

definition findBucket :: "RoutingTable \<Rightarrow> InfoHash \<Rightarrow> nat option" where
  "findBucket tbl i = find_if (\<lambda>b. contains tbl b i) [0..<length tbl]"

definition bucket_end :: "RoutingTable \<Rightarrow> nat \<Rightarrow> nat" where
  "bucket_end tbl b = (if Suc b < length tbl then unat (first (tbl ! Suc b)) else 2 ^ 160)"

definition bucket_width :: "RoutingTable \<Rightarrow> nat \<Rightarrow> nat" where
  "bucket_width tbl b = bucket_end tbl b - unat (first (tbl ! b))"

definition middle :: "RoutingTable \<Rightarrow> nat \<Rightarrow> InfoHash" where
  "middle tbl b = word_of_nat (unat (first (tbl ! b)) + bucket_width tbl b div 2)"

definition RoutingTable_split :: "RoutingTable \<Rightarrow> nat \<Rightarrow> bool \<times> RoutingTable" where
  "RoutingTable_split tbl b =
     (if \<not> b < length tbl \<or> bucket_width tbl b < 2 then (False, tbl)
      else
        (let B = tbl ! b;
             mid = middle tbl b;
             lower = B\<lparr>bucket_nodes := filter (\<lambda>n. node_id n < mid) (bucket_nodes B)\<rparr>;
             upper = \<lparr>af = af B, first = mid, bucket_time = bucket_time B,
                      bucket_nodes = filter (\<lambda>n. \<not> node_id n < mid) (bucket_nodes B),
                      cached = []\<rparr>
         in (True, take b tbl @ [lower, upper] @ drop (Suc b) tbl)))"

text \<open>
  Modelled from the spec: the insertion of a newly seen node (section 4.3). Locate the
  bucket whose range contains the node's id; if the node is already present, refresh
  its timestamp; if the bucket has capacity, insert; else if the bucket contains the
  local id, or is near it (a rule on the depth of the bucket, here the parameter
  \<open>near_home\<close>), split the bucket along its midpoint and retry; else record the
  node as the bucket's cached candidate.
\<close>

definition splittable :: "InfoHash \<Rightarrow> (RoutingTable \<Rightarrow> nat \<Rightarrow> bool) \<Rightarrow> RoutingTable \<Rightarrow> nat \<Rightarrow> bool" where
  "splittable myid near_home tbl b = (contains tbl b myid \<or> near_home tbl b)"

function RoutingTable_insert ::
  "InfoHash \<Rightarrow> (RoutingTable \<Rightarrow> nat \<Rightarrow> bool) \<Rightarrow> RoutingTable \<Rightarrow> Node \<Rightarrow> time_point \<Rightarrow> RoutingTable" where
  "RoutingTable_insert myid near_home tbl n now =
     (case findBucket tbl (node_id n) of
        None \<Rightarrow> tbl
      | Some b \<Rightarrow>
          if \<exists>m \<in> set (bucket_nodes (tbl ! b)). node_id m = node_id n
          then tbl[b := (tbl ! b)\<lparr>bucket_nodes :=
                 map (\<lambda>m. if node_id m = node_id n then m\<lparr>last_reply_time := now\<rparr> else m)
                   (bucket_nodes (tbl ! b))\<rparr>]
          else if length (bucket_nodes (tbl ! b)) < TARGET_NODES
          then tbl[b := (tbl ! b)\<lparr>bucket_nodes := bucket_nodes (tbl ! b) @ [n]\<rparr>]
          else if splittable myid near_home tbl b \<and> fst (RoutingTable_split tbl b)
          then RoutingTable_insert myid near_home (snd (RoutingTable_split tbl b)) n now
          else tbl[b := (tbl ! b)\<lparr>cached := address n\<rparr>])"
  by pat_completeness auto

datatype RtOp = RtInsert Node time_point | RtSplit nat

fun apply_rt_op ::
  "InfoHash \<Rightarrow> (RoutingTable \<Rightarrow> nat \<Rightarrow> bool) \<Rightarrow> RtOp \<Rightarrow> RoutingTable \<Rightarrow> RoutingTable" where
  "apply_rt_op myid near_home (RtInsert n now) tbl = RoutingTable_insert myid near_home tbl n now"
| "apply_rt_op myid near_home (RtSplit b) tbl = snd (RoutingTable_split tbl b)"

definition run_rt_ops ::
  "InfoHash \<Rightarrow> (RoutingTable \<Rightarrow> nat \<Rightarrow> bool) \<Rightarrow> RtOp list \<Rightarrow> RoutingTable \<Rightarrow> RoutingTable" where
  "run_rt_ops myid near_home ops tbl = fold (apply_rt_op myid near_home) ops tbl"

text \<open>
  The invariant of a routing table: there is a bucket, the first bucket starts at the
  zero identifier, and the first identifiers increase strictly along the list.
\<close>

definition rt_inv :: "RoutingTable \<Rightarrow> bool" where
  "rt_inv tbl = (tbl \<noteq> [] \<and> first (hd tbl) = 0 \<and> sorted_wrt (<) (map first tbl))"

section \<open>Example data\<close>

text \<open>Concrete inputs on which the theorems below are evaluated.\<close>

definition ty_example :: "ValueType_Id \<Rightarrow> duration \<Rightarrow> ValueType" where
  "ty_example i e =
     \<lparr>vt_id = i, expiration = e, store_policy = (\<lambda>_ _. True), edit_policy = (\<lambda>_ _ _. True)\<rparr>"

definition node_example :: "InfoHash \<Rightarrow> nat \<Rightarrow> Node" where
  "node_example i p =
     \<lparr>node_id = i, address = [], family = 2, last_reply_time = 0, last_ping_time = 0,
      pinged_count = p\<rparr>"

definition sn_example :: "nat \<Rightarrow> SearchNode" where
  "sn_example p =
     \<lparr>node = node_example 1 p, last_get_reply = 0, getStatus = None, listenStatus = None,
      acked = [5 \<mapsto> Some \<lparr>reply_time = seconds 100, last_try = seconds 99\<rparr>],
      token = [1], candidate = False\<rparr>"


definition cb_example :: "(nat, nat) GetCallbackSimple" where
  "cb_example v s = (v < 3, s + v)"





definition value_example :: "Value_Id \<Rightarrow> nat \<Rightarrow> Value" where
  "value_example i n =
     \<lparr>value_id = i, type_id = 0, payload = replicate n 0, owner = None, signature = None,
      recipient = None\<rparr>"

definition storage_example :: Storage where
  "storage_example =
     \<lparr>storage_id = 1, maintenance_time = 0, listeners = [], listener_token = 1,
      storage_values =
        [\<lparr>data = value_example 1 4, time = 0\<rparr>, \<lparr>data = value_example 2 6, time = 5\<rparr>],
      total_size = 10\<rparr>"




definition ops_two :: "StoreOp list" where
  "ops_two = [OpStore 1 (value_example 1 4) 0 0, OpStore 1 (value_example 2 6) 5 5,
              OpStore 1 (value_example 1 3) 6 6, OpExpire (minutes 10 + 5)]"

definition search_example :: Search where
  "search_example =
     \<lparr>search_id = 1, search_af = 2, tid = 1, refill_time = 0, step_time = 0, get_step_time = 0,
      expired = False, search_done = False,
      nodes = map (\<lambda>i. SearchNode_new (node_example i 0))
                [2, 4, 6, 8, 10, 12, 14, 16, 18, 20, 22, 24, 26, 28]\<rparr>"

definition rt_example :: RoutingTable where
  "rt_example =
     [\<lparr>af = 2, first = 0, bucket_time = time_point_min, bucket_nodes = [], cached = []\<rparr>,
      \<lparr>af = 2, first = 2 ^ 159, bucket_time = time_point_min, bucket_nodes = [],
       cached = []\<rparr>]"

section \<open>Auxiliary lemmas on lists\<close>

lemma find_if_Some: "find_if P xs = Some i \<Longrightarrow> i < length xs \<and> P (xs ! i)"
  by (induction xs arbitrary: i) (auto split: if_splits)

lemma find_if_None: "find_if P xs = None \<Longrightarrow> \<forall>x \<in> set xs. \<not> P x"
  by (induction xs) (auto split: if_splits)

lemma find_if_None_iff: "find_if P xs = None \<longleftrightarrow> (\<forall>x \<in> set xs. \<not> P x)"
  by (induction xs) auto

lemma find_if_prefix: "find_if P xs = Some p \<Longrightarrow> \<forall>x \<in> set (take p xs). \<not> P x"
proof (induction xs arbitrary: p)
  case Nil
  then show ?case by simp
next
  case (Cons x xs)
  then show ?case by (auto split: if_splits)
qed

lemma find_if_first: "find_if P xs = Some p \<Longrightarrow> j < p \<Longrightarrow> \<not> P (xs ! j)"
proof (induction xs arbitrary: p j)
  case Nil
  then show ?case by simp
next
  case (Cons x xs)
  then show ?case by (cases j) (auto split: if_splits)
qed

lemma sum_list_filter_split:
  "sum_list (map f (filter P xs)) + sum_list (map f (filter (\<lambda>x. \<not> P x) xs)) =
   (sum_list (map f xs) :: nat)"
  by (induction xs) auto

lemma sum_list_map_update:
  assumes "i < length xs"
  shows "int (sum_list (map f (xs[i := y]))) =
         int (sum_list (map f xs)) + int (f y) - int (f (xs ! i) :: nat)"
proof -
  have "map f (xs[i := y]) = (map f xs)[i := f y]" by (simp add: map_update)
  moreover have "sum_list ((map f xs)[i := f y]) = sum_list (map f xs) + f y - (map f xs) ! i"
    using assms by (simp add: sum_list_update)
  moreover have "(map f xs) ! i \<le> sum_list (map f xs)"
    using assms by (simp add: member_le_sum_list)
  ultimately show ?thesis using assms by simp
qed


lemma sorted_insert_at:
  fixes ds :: "InfoHash list"
  assumes "sorted_wrt (<) ds"
    and "\<forall>x \<in> set (take p ds). x < d"
    and "\<forall>y \<in> set (drop p ds). d < y"
  shows "sorted_wrt (<) (take p ds @ [d] @ drop p ds)"
proof -
  from assms(1) have "sorted_wrt (<) (take p ds @ drop p ds)" by simp
  then have "sorted_wrt (<) (take p ds)" "sorted_wrt (<) (drop p ds)"
    "\<forall>x \<in> set (take p ds). \<forall>y \<in> set (drop p ds). x < y"
    unfolding sorted_wrt_append by simp_all
  with assms(2,3) show ?thesis
    by (auto simp: sorted_wrt_append)
qed

section \<open>Properties of the type registry\<close>

lemma registered_snoc: "registered (tys @ [ty]) = registerType ty (registered tys)"
  by (simp add: registered_def)

lemma registered_unregistered:
  "t \<notin> vt_id ` set tys \<Longrightarrow> registered tys t = None"
proof (induction tys rule: rev_induct)
  case Nil
  then show ?case by (simp add: registered_def)
next
  case (snoc ty tys)
  then show ?case by (auto simp: registered_snoc registerType_def)
qed

text \<open>
  C9: for a type id \<open>t\<close> that no earlier \<^verbatim>\<open>registerType\<close> call carried, \<^verbatim>\<open>getType(t)\<close>
  is the default \<^verbatim>\<open>ValueType::USER_DATA\<close>; and after \<^verbatim>\<open>registerType(ty)\<close> on any
  registry, \<^verbatim>\<open>getType(ty.id)\<close> is \<open>ty\<close>.
\<close>

theorem getType_roundtrip:
  "(t \<notin> vt_id ` set tys \<longrightarrow> getType USER_DATA (registered tys) t = USER_DATA) \<and>
   getType USER_DATA (registerType ty tmap) (vt_id ty) = ty"
  by (simp add: getType_def registered_unregistered registerType_def)

theorem getType_roundtrip_witness:
  "(7::ValueType_Id) \<notin> vt_id ` set [ty_example 3 (minutes 10)] \<and>
   getType (ty_example 0 (minutes 10)) (registered [ty_example 3 (minutes 10)]) 7 =
     ty_example 0 (minutes 10) \<and>
   getType (ty_example 0 (minutes 10)) (registered [ty_example 3 (minutes 10)]) 3 =
     ty_example 3 (minutes 10)"
  using getType_roundtrip [of 7 "[ty_example 3 (minutes 10)]" "ty_example 0 (minutes 10)"
      "ty_example 3 (minutes 10)" Map.empty]
  by (simp add: ty_example_def registered_def)

section \<open>Properties of the callback adapter\<close>

lemma logged_apply:
  "logged cb v (s, l) = (case cb v s of (ok, s') \<Rightarrow> (ok, (s', l @ [(v, ok)])))"
  by (simp add: logged_def)

lemma logged_loop:
  "get_cb_loop (logged cb) vs (s, l0) = (r, (s', l)) \<Longrightarrow>
   \<exists>l1. l = l0 @ l1 \<and> map fst l1 = take (length l1) vs \<and>
        (\<forall>b \<in> set (butlast (map snd l1)). b) \<and>
        (r \<longleftrightarrow> length l1 = length vs \<and> (\<forall>b \<in> set (map snd l1). b)) \<and>
        (\<not> r \<longrightarrow> l1 \<noteq> [] \<and> \<not> snd (last l1))"
proof (induction vs arbitrary: s l0)
  case Nil
  then show ?case by auto
next
  case (Cons v vs)
  obtain ok s1 where c: "cb v s = (ok, s1)" by (cases "cb v s")
  show ?case
  proof (cases ok)
    case False
    with Cons.prems c have "l = l0 @ [(v, False)]" "r = False"
      by (auto simp: logged_apply)
    then show ?thesis by auto
  next
    case True
    with Cons.prems c have "get_cb_loop (logged cb) vs (s1, l0 @ [(v, True)]) = (r, (s', l))"
      by (auto simp: logged_apply)
    from Cons.IH [OF this] obtain l1 where l1: "l = (l0 @ [(v, True)]) @ l1"
        "map fst l1 = take (length l1) vs"
        "\<forall>b \<in> set (butlast (map snd l1)). b"
        "r \<longleftrightarrow> length l1 = length vs \<and> (\<forall>b \<in> set (map snd l1). b)"
        "\<not> r \<longrightarrow> l1 \<noteq> [] \<and> \<not> snd (last l1)"
      by blast
    have "l = l0 @ ((v, True) # l1)" using l1(1) by simp
    moreover have "map fst ((v, True) # l1) = take (length ((v, True) # l1)) (v # vs)"
      using l1(2) by simp
    moreover have "\<forall>b \<in> set (butlast (map snd ((v, True) # l1))). b"
      using l1(3) by (cases l1) auto
    moreover have "r \<longleftrightarrow> length ((v, True) # l1) = length (v # vs) \<and>
        (\<forall>b \<in> set (map snd ((v, True) # l1)). b)"
      using l1(4) by auto
    moreover have "\<not> r \<longrightarrow> ((v, True) # l1) \<noteq> [] \<and> \<not> snd (last ((v, True) # l1))"
      using l1(5) by auto
    ultimately show ?thesis by blast
  qed
qed

lemma logged_same_result:
  "get_cb_loop (logged cb) vs (s, l0) = (r, (s', l)) \<Longrightarrow> get_cb_loop cb vs s = (r, s')"
proof (induction vs arbitrary: s l0)
  case Nil
  then show ?case by auto
next
  case (Cons v vs)
  obtain ok s1 where c: "cb v s = (ok, s1)" by (cases "cb v s")
  show ?case using Cons c by (cases ok) (auto simp: logged_apply)
qed

text \<open>
  C10: for every simple callback \<open>cb\<close> and every vector \<open>vs\<close>, the vector callback
  built by \<^verbatim>\<open>bindGetCb(cb)\<close> calls \<open>cb\<close> on the elements of \<open>vs\<close> in order (the logged
  arguments are a prefix of \<open>vs\<close>), every call but the last one logged returned true,
  a false result is the result of the last call made (so no call follows the first
  false one), and the adapter returns true exactly when \<open>cb\<close> was called on every
  element and returned true each time. The log is observed through the wrapper
  \<open>logged\<close>, which changes neither the result nor the callback's own state.
\<close>

theorem bindGetCb_calls:
  assumes "bindGetCb (Some (logged cb)) = Some g"
    and "g vs (s, []) = (r, (s', log))"
  shows "bindGetCb (Some cb) = Some (get_cb_loop cb) \<and> get_cb_loop cb vs s = (r, s') \<and>
    map fst log = take (length log) vs \<and>
    (\<forall>b \<in> set (butlast (map snd log)). b) \<and>
    (r \<longleftrightarrow> length log = length vs \<and> (\<forall>b \<in> set (map snd log). b)) \<and>
    (\<not> r \<longrightarrow> log \<noteq> [] \<and> \<not> snd (last log))"
proof -
  from assms have run: "get_cb_loop (logged cb) vs (s, []) = (r, (s', log))"
    by (auto simp: bindGetCb_def)
  from logged_loop [OF run] obtain l1 where "log = [] @ l1"
      "map fst l1 = take (length l1) vs"
      "\<forall>b \<in> set (butlast (map snd l1)). b"
      "r \<longleftrightarrow> length l1 = length vs \<and> (\<forall>b \<in> set (map snd l1). b)"
      "\<not> r \<longrightarrow> l1 \<noteq> [] \<and> \<not> snd (last l1)"
    by blast
  with logged_same_result [OF run] show ?thesis
    by (simp add: bindGetCb_def)
qed

theorem bindGetCb_calls_witness:
  "bindGetCb (Some (logged cb_example)) = Some (get_cb_loop (logged cb_example)) \<and>
   get_cb_loop (logged cb_example) [1, 2, 5, 1] (0, []) =
     (False, (8, [(1, True), (2, True), (5, False)])) \<and>
   get_cb_loop cb_example [1, 2, 5, 1] 0 = (False, 8) \<and>
   map fst [(1::nat, True), (2, True), (5, False)] = take 3 [1, 2, 5, 1]"
proof -
  have b: "bindGetCb (Some (logged cb_example)) = Some (get_cb_loop (logged cb_example))"
    by (simp add: bindGetCb_def)
  have run: "get_cb_loop (logged cb_example) [1, 2, 5, 1] (0, []) =
      (False, (8, [(1, True), (2, True), (5, False)]))"
    by (simp add: logged_apply cb_example_def)
  from bindGetCb_calls [OF b run] b run show ?thesis by simp
qed

section \<open>Properties of search nodes\<close>





text \<open>
  C5 as stated fails: a search node whose node is expired is not synced, although it
  holds a token and its last reply is recent. Here the node has three failed requests,
  a one-byte token and a reply at the current time.
\<close>

theorem isSynced_counterexample:
  "\<not> (isSynced (minutes 10) (sn_example 3) 0 \<longleftrightarrow>
      (token (sn_example 3) \<noteq> [] \<and> last_get_reply (sn_example 3) \<ge> 0 - minutes 10))"
  by (simp add: isSynced_def sn_example_def node_example_def Node_isExpired_def
      minutes_def seconds_def)

text \<open>
  C5, amended: \<^verbatim>\<open>isSynced(now)\<close> is true exactly when the node is not expired at \<open>now\<close>,
  the node has returned a non-empty token and its last get reply is recent
  (\<open>last_get_reply \<ge> now - NODE_EXPIRE_TIME\<close>).
\<close>

theorem isSynced_iff:
  "isSynced NODE_EXPIRE_TIME sn now \<longleftrightarrow>
     (\<not> Node_isExpired (node sn) now \<and> token sn \<noteq> [] \<and>
      last_get_reply sn \<ge> now - NODE_EXPIRE_TIME)"
  by (simp add: isSynced_def)

text \<open>
  C6 as stated fails: a get is not sent to an expired node, although no get is in
  flight and the search has new information. Here the node has three failed requests,
  no get request, its last reply at time 0 and a search update at time 1.
\<close>

theorem canGet_counterexample:
  "\<not> (canGet (\<lambda>r t. False) (minutes 10) (sn_example 3) 0 1 \<longleftrightarrow>
      (\<not> (\<exists>r. getStatus (sn_example 3) = Some r \<and> (\<lambda>r t. False) r 0) \<and>
       (0 > last_get_reply (sn_example 3) + minutes 10 \<or> 1 > last_get_reply (sn_example 3))))"
  by (simp add: canGet_def sn_example_def node_example_def Node_isExpired_def
      minutes_def seconds_def)

text \<open>
  C6, amended: \<^verbatim>\<open>canGet(now, update)\<close> is true exactly when the node is not expired at
  \<open>now\<close>, no get request to it is pending, and either its last reply is stale
  (\<open>now > last_get_reply + NODE_EXPIRE_TIME\<close>) or the search has new information since
  then (\<open>update > last_get_reply\<close>).
\<close>

theorem canGet_iff:
  "canGet pending NODE_EXPIRE_TIME sn now update \<longleftrightarrow>
     (\<not> Node_isExpired (node sn) now \<and>
      \<not> (\<exists>r. getStatus sn = Some r \<and> pending r now) \<and>
      (now > last_get_reply sn + NODE_EXPIRE_TIME \<or> update > last_get_reply sn))"
  by (auto simp: canGet_def split: option.splits)

section \<open>Properties of write tokens\<close>





section \<open>Properties of the storage\<close>

lemma Storage_store_replace:
  assumes "find_if (\<lambda>vs. value_id (data vs) = value_id v) (storage_values st) = Some i"
    and "storage_inv st"
  shows "storage_inv (st\<lparr>storage_values := (storage_values st)[i := \<lparr>data = v, time = created\<rparr>],
           total_size := nat (int (total_size st) +
             (int (Value_size v) - int (Value_size (data (storage_values st ! i)))))\<rparr>)"
proof -
  let ?xs = "storage_values st" and ?e = "\<lparr>data = v, time = created\<rparr>"
  let ?f = "\<lambda>vs. value_id (data vs)" and ?g = "\<lambda>vs. Value_size (data vs)"
  from find_if_Some [OF assms(1)] have i: "i < length ?xs" and same: "?f (?xs ! i) = value_id v"
    by simp_all
  have "map ?f (?xs[i := ?e]) = (map ?f ?xs)[i := ?f ?e]" by (simp add: map_update)
  also have "\<dots> = map ?f ?xs" using i same by (simp add: list_update_same_conv)
  finally have ids: "map ?f (?xs[i := ?e]) = map ?f ?xs" .
  have "int (sum_list (map ?g (?xs[i := ?e]))) =
      int (sum_list (map ?g ?xs)) + int (?g ?e) - int (?g (?xs ! i))"
    using i by (rule sum_list_map_update)
  then have "sum_list (map ?g (?xs[i := ?e])) =
      nat (int (total_size st) + (int (Value_size v) - int (Value_size (data (?xs ! i)))))"
    using assms(2) by (simp add: storage_inv_def)
  with ids assms(2) show ?thesis by (simp add: storage_inv_def)
qed

lemma Storage_store_add:
  assumes "find_if (\<lambda>vs. value_id (data vs) = value_id v) (storage_values st) = None"
    and "storage_inv st"
  shows "storage_inv (st\<lparr>storage_values := storage_values st @ [\<lparr>data = v, time = created\<rparr>],
           total_size := nat (int (total_size st) + int (Value_size v))\<rparr>)"
  using find_if_None [OF assms(1)] assms(2) by (auto simp: storage_inv_def)

lemma Storage_store_inv:
  "storage_inv st \<Longrightarrow> storage_inv (snd (Storage_store ty st v created size_left))"
  by (auto simp: Storage_store_def Let_def Storage_store_replace Storage_store_add
      split: option.splits)

lemma Storage_expire_inv:
  assumes "storage_inv st"
  shows "storage_inv (snd (Storage_expire USER_DATA tmap st now))"
proof -
  let ?P = "value_expired USER_DATA tmap now"
  let ?g = "\<lambda>vs. Value_size (data vs)"
  have "sum_list (map ?g (filter ?P (storage_values st))) +
        sum_list (map ?g (filter (\<lambda>x. \<not> ?P x) (storage_values st))) =
        sum_list (map ?g (storage_values st))"
    by (rule sum_list_filter_split)
  with assms show ?thesis
    by (auto simp: Storage_expire_def Let_def storage_inv_def distinct_map_filter)
qed

lemma Storage_new_inv: "storage_inv (Storage_new i now)"
  by (simp add: storage_inv_def Storage_new_def)

lemma Storage_store_delta:
  assumes "storage_inv st" and "Storage_store ty st v created size_left = ((chg, ds, dn), st')"
  shows "int (total_size st') = int (total_size st) + ds \<and>
         (chg = None \<longrightarrow> st' = st \<and> ds = 0 \<and> dn = 0) \<and> ds \<le> max 0 size_left"
proof (cases "find_if (\<lambda>vs. value_id (data vs) = value_id v) (storage_values st)")
  case None
  with assms(2) show ?thesis
    by (auto simp: Storage_store_def Let_def split: if_splits)
next
  case (Some i)
  let ?g = "\<lambda>vs. Value_size (data vs)"
  from find_if_Some [OF Some] have "i < length (storage_values st)" by simp
  then have "?g (storage_values st ! i) \<le> sum_list (map ?g (storage_values st))"
    by (simp add: member_le_sum_list)
  then have "Value_size (data (storage_values st ! i)) \<le> total_size st"
    using assms(1) by (simp add: storage_inv_def)
  with Some assms(2) show ?thesis
    by (auto simp: Storage_store_def Let_def split: if_splits)
qed

lemma Storage_expire_delta:
  assumes "storage_inv st" and "Storage_expire USER_DATA tmap st now = ((ds, dn), st')"
  shows "int (total_size st') = int (total_size st) + ds \<and> ds \<le> 0"
proof -
  let ?P = "value_expired USER_DATA tmap now"
  let ?g = "\<lambda>vs. Value_size (data vs)"
  have "sum_list (map ?g (filter ?P (storage_values st))) +
        sum_list (map ?g (filter (\<lambda>x. \<not> ?P x) (storage_values st))) =
        sum_list (map ?g (storage_values st))"
    by (rule sum_list_filter_split)
  with assms show ?thesis
    by (auto simp: Storage_expire_def Let_def storage_inv_def)
qed

lemma sum_total_size_update:
  assumes "k < length sts" and "int (total_size st') = int (total_size (sts ! k)) + ds"
  shows "int (sum_total_size (sts[k := st'])) = int (sum_total_size sts) + ds"
  using sum_list_map_update [OF assms(1), of total_size st'] assms(2)
  by (simp add: sum_total_size_def)

lemma storageStore_step:
  assumes "dht_inv d"
  shows "dht_inv (snd (storageStore USER_DATA d i v created now)) \<and>
         total_store_size (snd (storageStore USER_DATA d i v created now)) \<le>
           max (total_store_size d) (max_store_size d) \<and>
         max_store_size (snd (storageStore USER_DATA d i v created now)) = max_store_size d"
proof -
  define ks where "ks = (case findStorage d i of
                        Some k \<Rightarrow> (k, store d)
                      | None \<Rightarrow> (length (store d), store d @ [Storage_new i now]))"
  obtain k sts where ks: "ks = (k, sts)" by (cases ks)
  have k: "k < length sts"
    using ks find_if_Some [of "\<lambda>st. storage_id st = i" "store d"]
    by (auto simp: ks_def findStorage_def split: option.splits)
  have all: "\<forall>st \<in> set sts. storage_inv st"
    using ks assms by (auto simp: ks_def dht_inv_def Storage_new_inv split: option.splits)
  have sum: "sum_total_size sts = total_store_size d"
    using ks assms
    by (auto simp: ks_def dht_inv_def sum_total_size_def Storage_new_def split: option.splits)
  define ty where "ty = getType USER_DATA (types d) (type_id v)"
  define sl where "sl = int (max_store_size d) - int (total_store_size d)"
  obtain chg ds dn st' where r: "Storage_store ty (sts ! k) v created sl = ((chg, ds, dn), st')"
    by (metis prod.exhaust)
  have invk: "storage_inv (sts ! k)" using all k by simp
  from Storage_store_delta [OF invk r]
  have delta: "int (total_size st') = int (total_size (sts ! k)) + ds"
    and le: "ds \<le> max 0 sl" by auto
  have inv': "storage_inv st'" using Storage_store_inv [OF invk, of ty v created sl] r by simp
  have res: "storageStore USER_DATA d i v created now =
      (case chg of None \<Rightarrow> (False, d\<lparr>store := sts\<rparr>)
       | Some e \<Rightarrow> (True, d\<lparr>store := sts[k := st'],
                      total_store_size := nat (int (total_store_size d) + ds),
                      total_values := nat (int (total_values d) + dn)\<rparr>))"
    using ks r
    by (simp add: storageStore_def ks_def [symmetric] ty_def [symmetric] sl_def [symmetric]
        split: option.splits)
  show ?thesis
  proof (cases chg)
    case None
    with res all sum show ?thesis by (simp add: dht_inv_def)
  next
    case (Some e)
    have "int (sum_total_size (sts[k := st'])) = int (total_store_size d) + ds"
      using sum_total_size_update [OF k delta] sum by simp
    moreover have "\<forall>st \<in> set (sts[k := st']). storage_inv st"
      using all inv' by (metis insert_iff set_update_subset_insert subsetD)
    ultimately show ?thesis using Some res le
      by (auto simp: dht_inv_def sl_def)
  qed
qed

lemma expire_all_step:
  assumes "\<forall>st \<in> set sts. storage_inv st"
    and "expire_all USER_DATA tmap now sts = ((ds, dn), sts')"
  shows "(\<forall>st \<in> set sts'. storage_inv st) \<and>
         int (sum_total_size sts') = int (sum_total_size sts) + ds \<and> ds \<le> 0"
  using assms
proof (induction sts arbitrary: ds dn sts')
  case Nil
  then show ?case by (simp add: sum_total_size_def)
next
  case (Cons st sts)
  obtain d1 n1 st1 where e1: "Storage_expire USER_DATA tmap st now = ((d1, n1), st1)"
    by (metis prod.exhaust)
  obtain d2 n2 sts2 where e2: "expire_all USER_DATA tmap now sts = ((d2, n2), sts2)"
    by (metis prod.exhaust)
  have inv: "storage_inv st" using Cons.prems(1) by simp
  from Storage_expire_delta [OF inv e1] have t1: "int (total_size st1) = int (total_size st) + d1"
    and le1: "d1 \<le> 0" by simp_all
  have inv1: "storage_inv st1" using Storage_expire_inv [OF inv, of USER_DATA tmap now] e1 by simp
  from Cons.IH [OF _ e2] Cons.prems(1)
  have ih: "\<forall>st \<in> set sts2. storage_inv st"
      "int (sum_total_size sts2) = int (sum_total_size sts) + d2" "d2 \<le> 0"
    by simp_all
  have empty0: "storage_values st1 = [] \<Longrightarrow> total_size st1 = 0"
    using inv1 by (simp add: storage_inv_def)
  from Cons.prems(2) e1 e2 have ds: "ds = d1 + d2"
    and sts': "sts' = (if storage_values st1 = [] \<and> listeners st1 = [] then sts2 else st1 # sts2)"
    by simp_all
  show ?case
  proof (cases "storage_values st1 = [] \<and> listeners st1 = []")
    case True
    then have "total_size st1 = 0" using empty0 by simp
    with True ds sts' ih t1 le1 show ?thesis by (simp add: sum_total_size_def)
  next
    case False
    with ds sts' ih inv1 t1 le1 show ?thesis by (simp add: sum_total_size_def)
  qed
qed

lemma expireStorage_step:
  assumes "dht_inv d"
  shows "dht_inv (expireStorage USER_DATA d now) \<and>
         total_store_size (expireStorage USER_DATA d now) \<le> total_store_size d \<and>
         max_store_size (expireStorage USER_DATA d now) = max_store_size d"
proof -
  obtain ds dn sts where e: "expire_all USER_DATA (types d) now (store d) = ((ds, dn), sts)"
    by (metis prod.exhaust)
  from assms have "\<forall>st \<in> set (store d). storage_inv st" by (simp add: dht_inv_def)
  from expire_all_step [OF this e]
  have "\<forall>st \<in> set sts. storage_inv st"
      "int (sum_total_size sts) = int (sum_total_size (store d)) + ds" "ds \<le> 0"
    by simp_all
  moreover from this assms have "sum_total_size sts = nat (int (total_store_size d) + ds)"
      "nat (int (total_store_size d) + ds) \<le> total_store_size d"
    by (simp_all add: dht_inv_def)
  ultimately show ?thesis using e
    by (simp add: dht_inv_def expireStorage_def)
qed

lemma apply_op_inv:
  assumes "dht_inv d"
  shows "dht_inv (apply_op USER_DATA op d)"
proof (cases op)
  case (OpStore i v created now)
  with storageStore_step [OF assms, of USER_DATA i v created now] show ?thesis by simp
next
  case (OpExpire now)
  with expireStorage_step [OF assms, of USER_DATA now] show ?thesis by simp
next
  case (OpSetStorageLimit limit)
  with assms show ?thesis by (simp add: dht_inv_def setStorageLimit_def)
next
  case (OpRegisterType ty)
  with assms show ?thesis by (simp add: dht_inv_def)
qed

lemma run_ops_inv: "dht_inv d \<Longrightarrow> dht_inv (run_ops USER_DATA ops d)"
  unfolding run_ops_def
  by (induction ops arbitrary: d) (auto simp: apply_op_inv)

lemma Dht_init_inv: "dht_inv Dht_init"
  by (simp add: dht_inv_def Dht_init_def sum_total_size_def)





lemmas store_eval =
  run_ops_def Dht_init_def storageStore_def findStorage_def
  Storage_store_def Storage_new_def getType_def ty_example_def value_example_def
  Value_size_def setStorageLimit_def DEFAULT_STORAGE_LIMIT_def Let_def
  storage_example_def sum_total_size_def












text \<open>
  C8: the invariant of a storage record (no two stored values share their
  \<^verbatim>\<open>value.id\<close>, and \<^verbatim>\<open>total_size\<close> is the sum of the payload sizes of the stored values)
  is preserved by \<^verbatim>\<open>Storage::store\<close> and by \<^verbatim>\<open>Storage::expire\<close>, and it holds for every
  storage record of every state that a node reaches from its initial one.
\<close>

theorem storage_invariant:
  "(storage_inv st \<longrightarrow>
      storage_inv (snd (Storage_store ty st v created size_left)) \<and>
      storage_inv (snd (Storage_expire USER_DATA tmap st now))) \<and>
   (\<forall>s \<in> set (store (run_ops USER_DATA ops Dht_init)).
      distinct (map (\<lambda>vs. value_id (data vs)) (storage_values s)) \<and>
      total_size s = sum_list (map (\<lambda>vs. Value_size (data vs)) (storage_values s)))"
proof -
  have "dht_inv (run_ops USER_DATA ops Dht_init)"
    using Dht_init_inv by (rule run_ops_inv)
  then have "\<forall>s \<in> set (store (run_ops USER_DATA ops Dht_init)). storage_inv s"
    by (simp add: dht_inv_def)
  then show ?thesis
    by (simp add: Storage_store_inv Storage_expire_inv storage_inv_def [symmetric])
qed

theorem storage_invariant_witness:
  "storage_inv storage_example \<and>
   storage_inv (snd (Storage_store (ty_example 0 (minutes 10)) storage_example (value_example 2 3) 7 0)) \<and>
   total_size (snd (Storage_store (ty_example 0 (minutes 10)) storage_example (value_example 2 3) 7 0)) = 7 \<and>
   storage_inv (snd (Storage_expire (ty_example 0 (minutes 10)) Map.empty storage_example (minutes 10))) \<and>
   map total_size (store (run_ops (ty_example 0 (minutes 10)) ops_two Dht_init)) = [3] \<and>
   map (\<lambda>s. map (\<lambda>vs. value_id (data vs)) (storage_values s))
     (store (run_ops (ty_example 0 (minutes 10)) ops_two Dht_init)) = [[1]]"
proof -
  have i: "storage_inv storage_example"
    by (simp add: storage_inv_def store_eval)
  have t: "total_size (snd (Storage_store (ty_example 0 (minutes 10)) storage_example
      (value_example 2 3) 7 0)) = 7"
    by (simp add: store_eval)
  have r: "map total_size (store (run_ops (ty_example 0 (minutes 10)) ops_two Dht_init)) = [3]"
    "map (\<lambda>s. map (\<lambda>vs. value_id (data vs)) (storage_values s))
     (store (run_ops (ty_example 0 (minutes 10)) ops_two Dht_init)) = [[1]]"
    by (simp_all add: ops_two_def store_eval expireStorage_def Storage_expire_def
        value_expired_def minutes_def seconds_def LISTEN_EXPIRE_TIME_def
        MAX_STORAGE_MAINTENANCE_EXPIRE_TIME_def)
  from storage_invariant [of storage_example "ty_example 0 (minutes 10)" "value_example 2 3" 7 0
      "ty_example 0 (minutes 10)" Map.empty "minutes 10" ops_two] i t r
  show ?thesis by simp
qed

section \<open>Properties of the search frontier\<close>

lemma xor_distance_inj: "xor_distance t a = xor_distance t b \<longleftrightarrow> a = b"
  unfolding xor_distance_def
  by (metis bit.xor_left_self xor.left_commute xor.right_neutral)

lemma distances_refresh:
  assumes "i < length xs"
  shows "distances t (xs[i := (xs ! i)\<lparr>token := tok, last_get_reply := now\<rparr>]) = distances t xs"
  using assms by (simp add: distances_def map_update list_update_same_conv)

lemma insert_position:
  assumes sorted: "sorted_wrt (<) (distances t xs)"
    and fresh: "\<forall>sn \<in> set xs. node_id (node sn) \<noteq> node_id n"
    and pos: "pos = (case find_if (\<lambda>sn. closer t (node_id n) (node_id (node sn))) xs of
                       None \<Rightarrow> length xs | Some p \<Rightarrow> p)"
  shows "sorted_wrt (<) (distances t (take pos xs @ [SearchNode_new n] @ drop pos xs))"
    and "pos \<le> length xs"
    and "pos = length xs \<longleftrightarrow> (\<forall>sn \<in> set xs. closer t (node_id (node sn)) (node_id n))"
proof -
  let ?d = "\<lambda>sn. xor_distance t (node_id (node sn))"
  let ?P = "\<lambda>sn. closer t (node_id n) (node_id (node sn))"
  have ne: "?d sn \<noteq> xor_distance t (node_id n)" if "sn \<in> set xs" for sn
    using fresh that by (simp add: xor_distance_inj)
  have flip: "?d sn < xor_distance t (node_id n)" if "sn \<in> set xs" "\<not> ?P sn" for sn
    using ne [OF that(1)] that(2) by (auto simp: closer_def)
  have before: "\<forall>sn \<in> set (take pos xs). ?d sn < xor_distance t (node_id n)"
  proof (cases "find_if ?P xs")
    case None
    then have "\<forall>sn \<in> set xs. \<not> ?P sn" by (simp add: find_if_None_iff)
    with flip have "\<forall>sn \<in> set xs. ?d sn < xor_distance t (node_id n)" by blast
    moreover have "set (take pos xs) \<subseteq> set xs" by (rule set_take_subset)
    ultimately show ?thesis by blast
  next
    case (Some p)
    with pos find_if_prefix [OF Some] have "\<forall>sn \<in> set (take pos xs). \<not> ?P sn" by simp
    moreover have "set (take pos xs) \<subseteq> set xs" by (rule set_take_subset)
    ultimately show ?thesis using flip by blast
  qed
  have after: "\<forall>sn \<in> set (drop pos xs). xor_distance t (node_id n) < ?d sn"
  proof (cases "find_if ?P xs")
    case None
    with pos show ?thesis by simp
  next
    case (Some p)
    from find_if_Some [OF Some] pos Some have p: "pos < length xs" "?P (xs ! pos)" by simp_all
    show ?thesis
    proof
      fix sn assume "sn \<in> set (drop pos xs)"
      then obtain j where j: "j < length xs - pos" "sn = xs ! (pos + j)"
        by (auto simp: in_set_conv_nth)
      have "?d (xs ! pos) \<le> ?d (xs ! (pos + j))"
      proof (cases "j = 0")
        case True
        then show ?thesis by simp
      next
        case False
        with j(1) have "pos < pos + j" "pos + j < length (distances t xs)"
          by (simp_all add: distances_def)
        from sorted_wrt_nth_less [OF sorted this]
        show ?thesis using j(1) by (simp add: distances_def)
      qed
      with p(2) j(2) show "xor_distance t (node_id n) < ?d sn"
        by (simp add: closer_def)
    qed
  qed
  have "distances t (take pos xs @ [SearchNode_new n] @ drop pos xs) =
        take pos (distances t xs) @ [xor_distance t (node_id n)] @ drop pos (distances t xs)"
    by (simp add: distances_def take_map drop_map SearchNode_new_def)
  moreover have b': "\<forall>x \<in> set (take pos (distances t xs)). x < xor_distance t (node_id n)"
    using before by (simp add: distances_def take_map)
  moreover have a': "\<forall>y \<in> set (drop pos (distances t xs)). xor_distance t (node_id n) < y"
    using after by (simp add: distances_def drop_map)
  moreover note sorted_insert_at [OF sorted b' a']
  ultimately show "sorted_wrt (<) (distances t (take pos xs @ [SearchNode_new n] @ drop pos xs))"
    by simp
  show le: "pos \<le> length xs"
    using pos find_if_Some [of ?P xs] by (auto split: option.splits)
  show "pos = length xs \<longleftrightarrow> (\<forall>sn \<in> set xs. closer t (node_id (node sn)) (node_id n))"
  proof
    assume "pos = length xs"
    with before show "\<forall>sn \<in> set xs. closer t (node_id (node sn)) (node_id n)"
      by (simp add: closer_def)
  next
    assume all: "\<forall>sn \<in> set xs. closer t (node_id (node sn)) (node_id n)"
    then have "\<forall>sn \<in> set xs. \<not> ?P sn" by (auto simp: closer_def)
    then have "find_if ?P xs = None" by (simp add: find_if_None_iff)
    with pos show "pos = length xs" by simp
  qed
qed


lemma insertNode_present:
  assumes "find_if (\<lambda>sn. node_id (node sn) = node_id n) (nodes sr) = Some i"
  shows "Search_insertNode sr n now tok =
      (False, sr\<lparr>nodes := (nodes sr)[i := (nodes sr ! i)\<lparr>token := tok, last_get_reply := now\<rparr>]\<rparr>)"
    and "i < length (nodes sr)" and "node_id (node (nodes sr ! i)) = node_id n"
  using assms find_if_Some [OF assms] by (simp_all add: Search_insertNode_def)

lemma insertNode_absent:
  assumes "find_if (\<lambda>sn. node_id (node sn) = node_id n) (nodes sr) = None"
    and "pos = (case find_if (\<lambda>sn. closer (search_id sr) (node_id n) (node_id (node sn)))
                       (nodes sr) of None \<Rightarrow> length (nodes sr) | Some p \<Rightarrow> p)"
  shows "Search_insertNode sr n now tok =
      (if SEARCH_NODES \<le> length (nodes sr) \<and> pos = length (nodes sr) then (False, sr)
       else (True, sr\<lparr>nodes := take SEARCH_NODES
               (take pos (nodes sr) @ [SearchNode_new n] @ drop pos (nodes sr))\<rparr>))"
  using assms by (simp add: Search_insertNode_def Let_def)

lemma present_iff:
  "node_id n \<in> set (map (\<lambda>sn. node_id (node sn)) xs) \<longleftrightarrow>
   find_if (\<lambda>sn. node_id (node sn) = node_id n) xs \<noteq> None"
  by (force simp: find_if_None_iff)

text \<open>
  C4: for a frontier sorted by XOR distance to the target and holding at most 14
  entries, and every node \<open>n\<close>: if an entry with the id of \<open>n\<close> is present,
  \<^verbatim>\<open>insertNode\<close> returns false and changes only the token and the reply time of that
  entry; otherwise, if the frontier holds 14 entries and every entry is closer to the
  target than \<open>n\<close>, it returns false and changes nothing; otherwise it returns true, the
  entry of \<open>n\<close> is in the frontier, no other entry is new, and the frontier has one
  entry more, up to 14. In every case the frontier stays sorted by XOR distance to the
  target (so the entry of \<open>n\<close> stands at its position by distance) and holds at most 14
  entries.
\<close>

theorem insertNode_frontier:
  assumes inv: "frontier_inv sr"
  shows
   "(node_id n \<in> set (map (\<lambda>sn. node_id (node sn)) (nodes sr)) \<longrightarrow>
       \<not> fst (Search_insertNode sr n now tok) \<and>
       (\<exists>i < length (nodes sr). node_id (node (nodes sr ! i)) = node_id n \<and>
          snd (Search_insertNode sr n now tok) =
            sr\<lparr>nodes := (nodes sr)[i := (nodes sr ! i)\<lparr>token := tok, last_get_reply := now\<rparr>]\<rparr>)) \<and>
    (node_id n \<notin> set (map (\<lambda>sn. node_id (node sn)) (nodes sr)) \<and>
     length (nodes sr) = SEARCH_NODES \<and>
     (\<forall>sn \<in> set (nodes sr). closer (search_id sr) (node_id (node sn)) (node_id n)) \<longrightarrow>
       Search_insertNode sr n now tok = (False, sr)) \<and>
    (node_id n \<notin> set (map (\<lambda>sn. node_id (node sn)) (nodes sr)) \<and>
     \<not> (length (nodes sr) = SEARCH_NODES \<and>
        (\<forall>sn \<in> set (nodes sr). closer (search_id sr) (node_id (node sn)) (node_id n))) \<longrightarrow>
       fst (Search_insertNode sr n now tok) \<and>
       SearchNode_new n \<in> set (nodes (snd (Search_insertNode sr n now tok))) \<and>
       set (nodes (snd (Search_insertNode sr n now tok))) \<subseteq>
         insert (SearchNode_new n) (set (nodes sr)) \<and>
       length (nodes (snd (Search_insertNode sr n now tok))) =
         min SEARCH_NODES (Suc (length (nodes sr)))) \<and>
    sorted_wrt (<) (distances (search_id sr) (nodes (snd (Search_insertNode sr n now tok)))) \<and>
    length (nodes (snd (Search_insertNode sr n now tok))) \<le> SEARCH_NODES \<and>
    search_id (snd (Search_insertNode sr n now tok)) = search_id sr"
proof (cases "find_if (\<lambda>sn. node_id (node sn) = node_id n) (nodes sr)")
  case (Some i)
  note p = insertNode_present [OF Some]
  have "node_id n \<in> set (map (\<lambda>sn. node_id (node sn)) (nodes sr))"
    unfolding present_iff using Some by simp
  moreover have "distances (search_id sr)
      ((nodes sr)[i := (nodes sr ! i)\<lparr>token := tok, last_get_reply := now\<rparr>]) =
      distances (search_id sr) (nodes sr)"
    using p(2) by (rule distances_refresh)
  ultimately show ?thesis
    using p inv by (auto simp: frontier_inv_def)
next
  case None
  let ?xs = "nodes sr" and ?t = "search_id sr" and ?new = "SearchNode_new n"
  define pos where "pos = (case find_if (\<lambda>sn. closer ?t (node_id n) (node_id (node sn))) ?xs
                           of None \<Rightarrow> length ?xs | Some p \<Rightarrow> p)"
  let ?L = "take pos ?xs @ [?new] @ drop pos ?xs"
  note r = insertNode_absent [OF None pos_def]
  have absent: "node_id n \<notin> set (map (\<lambda>sn. node_id (node sn)) ?xs)"
    unfolding present_iff using None by simp
  from None have fresh: "\<forall>sn \<in> set ?xs. node_id (node sn) \<noteq> node_id n"
    by (simp add: find_if_None_iff)
  from inv have sorted: "sorted_wrt (<) (distances ?t ?xs)" and bound: "length ?xs \<le> SEARCH_NODES"
    by (simp_all add: frontier_inv_def)
  note ip = insert_position [OF sorted fresh pos_def]
  show ?thesis
  proof (cases "length ?xs = SEARCH_NODES \<and>
      (\<forall>sn \<in> set ?xs. closer ?t (node_id (node sn)) (node_id n))")
    case True
    with ip(3) have "SEARCH_NODES \<le> length ?xs \<and> pos = length ?xs" by simp
    with r have "Search_insertNode sr n now tok = (False, sr)" by simp
    with True absent inv show ?thesis by (simp add: frontier_inv_def)
  next
    case False
    with ip(2,3) bound have lt: "pos < SEARCH_NODES" by (cases "length ?xs = SEARCH_NODES") auto
    from False ip(3) bound have "\<not> (SEARCH_NODES \<le> length ?xs \<and> pos = length ?xs)" by auto
    with r have res: "Search_insertNode sr n now tok = (True, sr\<lparr>nodes := take SEARCH_NODES ?L\<rparr>)"
      by simp
    define L where "L = ?L"
    have lenL: "length L = Suc (length ?xs)" using ip(2) by (simp add: L_def)
    have "(take SEARCH_NODES L) ! pos = L ! pos" using lt by (rule nth_take)
    also have "\<dots> = ?new" using ip(2) by (simp add: L_def nth_append)
    finally have "take SEARCH_NODES L ! pos = ?new" .
    moreover have "pos < length (take SEARCH_NODES L)" using lt lenL ip(2) by simp
    ultimately have mem: "?new \<in> set (take SEARCH_NODES L)" by (metis nth_mem)
    have "set (take pos ?xs) \<union> set (drop pos ?xs) = set ?xs"
      by (metis append_take_drop_id set_append)
    then have "set L = insert ?new (set ?xs)" by (simp add: L_def)
    moreover have "set (take SEARCH_NODES L) \<subseteq> set L" by (rule set_take_subset)
    ultimately have sub: "set (take SEARCH_NODES L) \<subseteq> insert ?new (set ?xs)" by simp
    have len: "length (take SEARCH_NODES L) = min SEARCH_NODES (Suc (length ?xs))"
      using lenL by (simp add: min.commute)
    have "distances ?t (take SEARCH_NODES L) = take SEARCH_NODES (distances ?t L)"
      by (simp add: distances_def take_map)
    moreover have "sorted_wrt (<) (distances ?t L)" using ip(1) by (simp add: L_def)
    ultimately have srt: "sorted_wrt (<) (distances ?t (take SEARCH_NODES L))" by simp
    from res have res': "Search_insertNode sr n now tok = (True, sr\<lparr>nodes := take SEARCH_NODES L\<rparr>)"
      by (simp add: L_def)
    from res' mem sub len srt False absent show ?thesis by simp
  qed
qed

lemmas search_eval =
  search_example_def Search_insertNode_def SearchNode_new_def node_example_def closer_def
  xor_distance_def SEARCH_NODES_def distances_def frontier_inv_def Let_def

lemma ex_inv: "frontier_inv search_example"
  by (simp add: search_eval)

lemma ex_present: "Search_insertNode search_example (node_example 4 0) 7 [9] =
     (False, search_example\<lparr>nodes := (nodes search_example)
        [1 := (SearchNode_new (node_example 4 0))\<lparr>token := [9], last_get_reply := 7\<rparr>]\<rparr>)"
  by (simp add: search_eval)

lemma ex_far: "Search_insertNode search_example (node_example 30 0) 7 [] = (False, search_example)"
  by (simp add: search_eval)

lemma ex_ins: "fst (Search_insertNode search_example (node_example 5 0) 7 [])"
   "map (\<lambda>sn. node_id (node sn)) (nodes (snd (Search_insertNode search_example (node_example 5 0) 7 []))) =
     [2, 5, 4, 6, 8, 10, 12, 14, 16, 18, 20, 22, 24, 26]"
  by (simp_all add: search_eval)

theorem insertNode_frontier_witness:
  "frontier_inv search_example \<and>
   Search_insertNode search_example (node_example 4 0) 7 [9] =
     (False, search_example\<lparr>nodes := (nodes search_example)
        [1 := (SearchNode_new (node_example 4 0))\<lparr>token := [9], last_get_reply := 7\<rparr>]\<rparr>) \<and>
   Search_insertNode search_example (node_example 30 0) 7 [] = (False, search_example) \<and>
   fst (Search_insertNode search_example (node_example 5 0) 7 []) \<and>
   map (\<lambda>sn. node_id (node sn))
     (nodes (snd (Search_insertNode search_example (node_example 5 0) 7 []))) =
     [2, 5, 4, 6, 8, 10, 12, 14, 16, 18, 20, 22, 24, 26] \<and>
   sorted_wrt (<) (distances 1
     (nodes (snd (Search_insertNode search_example (node_example 5 0) 7 []))))"
proof -
  from insertNode_frontier [OF ex_inv, of "node_example 5 0" 7 "[]"]
  have "sorted_wrt (<) (distances (search_id search_example)
     (nodes (snd (Search_insertNode search_example (node_example 5 0) 7 []))))"
    by blast
  moreover have "search_id search_example = 1" by (simp add: search_example_def)
  ultimately show ?thesis using ex_inv ex_present ex_far ex_ins by simp
qed

section \<open>Properties of routing tables\<close>

lemma InfoHash_cmp_le: "InfoHash_cmp a b \<le> 0 \<longleftrightarrow> a \<le> b"
  by (auto simp: InfoHash_cmp_def)

lemma InfoHash_cmp_less: "InfoHash_cmp a b < 0 \<longleftrightarrow> a < b"
  by (auto simp: InfoHash_cmp_def)

lemma contains_iff:
  "contains tbl b i \<longleftrightarrow>
     b < length tbl \<and> first (tbl ! b) \<le> i \<and> (Suc b = length tbl \<or> i < first (tbl ! Suc b))"
  by (simp add: contains_def InfoHash_cmp_le InfoHash_cmp_less)

lemma findBucket_Some:
  assumes "findBucket tbl i = Some b"
  shows "contains tbl b i" and "\<forall>j < b. \<not> contains tbl j i"
proof -
  let ?P = "\<lambda>b. contains tbl b i"
  from assms have f: "find_if ?P [0..<length tbl] = Some b" by (simp add: findBucket_def)
  from find_if_Some [OF f] have b: "b < length tbl" by simp
  from find_if_Some [OF f] b show "contains tbl b i" by simp
  show "\<forall>j < b. \<not> contains tbl j i"
  proof (intro allI impI)
    fix j assume "j < b"
    with find_if_first [OF f this] b show "\<not> contains tbl j i" by simp
  qed
qed

lemma findBucket_None: "findBucket tbl i = None \<Longrightarrow> \<not> contains tbl b i"
  by (auto simp: findBucket_def find_if_None_iff contains_iff)

lemma findBucket_least:
  assumes "contains tbl b i"
  shows "\<exists>j \<le> b. findBucket tbl i = Some j"
proof (cases "findBucket tbl i")
  case None
  with assms show ?thesis by (simp add: findBucket_None)
next
  case (Some j)
  from findBucket_Some(2) [OF Some] assms have "\<not> b < j" by blast
  with Some show ?thesis by simp
qed


lemma bucket_end_le: "bucket_end tbl b \<le> 2 ^ 160"
proof -
  have "unat (first (tbl ! Suc b)) < 2 ^ LENGTH(160)" by (rule unsigned_less)
  then show ?thesis by (simp add: bucket_end_def)
qed

lemma middle_bounds:
  assumes "2 \<le> bucket_width tbl b"
  shows "unat (middle tbl b) = unat (first (tbl ! b)) + bucket_width tbl b div 2"
    and "unat (first (tbl ! b)) < unat (middle tbl b)"
    and "unat (middle tbl b) < bucket_end tbl b"
proof -
  let ?lo = "unat (first (tbl ! b))" and ?w = "bucket_width tbl b"
  have w: "?lo + ?w = bucket_end tbl b" using assms by (simp add: bucket_width_def)
  have "?lo + ?w div 2 < ?lo + ?w" using assms by simp
  with w bucket_end_le [of tbl b] have lt: "?lo + ?w div 2 < 2 ^ LENGTH(160)" by simp
  then have "unat (word_of_nat (?lo + ?w div 2) :: InfoHash) = ?lo + ?w div 2"
    by (rule of_nat_inverse [OF refl])
  then show m: "unat (middle tbl b) = ?lo + ?w div 2"
    unfolding middle_def .
  show "?lo < unat (middle tbl b)" using m assms by simp
  show "unat (middle tbl b) < bucket_end tbl b" using m w assms by simp
qed

lemma split_fail:
  assumes "\<not> fst (RoutingTable_split tbl b)"
  shows "snd (RoutingTable_split tbl b) = tbl"
proof (cases "\<not> b < length tbl \<or> bucket_width tbl b < 2")
  case True
  then show ?thesis by (simp add: RoutingTable_split_def)
next
  case False
  then have "fst (RoutingTable_split tbl b)" by (simp add: RoutingTable_split_def Let_def)
  with assms show ?thesis by simp
qed

lemma split_ok:
  assumes "fst (RoutingTable_split tbl b)"
  shows "b < length tbl" and "2 \<le> bucket_width tbl b"
    and "map first (snd (RoutingTable_split tbl b)) =
         take (Suc b) (map first tbl) @ [middle tbl b] @ drop (Suc b) (map first tbl)"
    and "length (snd (RoutingTable_split tbl b)) = Suc (length tbl)"
proof -
  have "\<not> (\<not> b < length tbl \<or> bucket_width tbl b < 2)"
  proof
    assume "\<not> b < length tbl \<or> bucket_width tbl b < 2"
    then have "RoutingTable_split tbl b = (False, tbl)" by (simp add: RoutingTable_split_def)
    with assms show False by simp
  qed
  then show b: "b < length tbl" and w: "2 \<le> bucket_width tbl b" by simp_all
  have "take (Suc b) (map first tbl) = take b (map first tbl) @ [first (tbl ! b)]"
    using b by (simp add: take_Suc_conv_app_nth)
  with b w show "map first (snd (RoutingTable_split tbl b)) =
         take (Suc b) (map first tbl) @ [middle tbl b] @ drop (Suc b) (map first tbl)"
    by (simp add: RoutingTable_split_def Let_def take_map drop_map)
  from b w show "length (snd (RoutingTable_split tbl b)) = Suc (length tbl)"
    by (simp add: RoutingTable_split_def Let_def)
qed

lemma split_inv:
  assumes "rt_inv tbl"
  shows "rt_inv (snd (RoutingTable_split tbl b))"
proof (cases "fst (RoutingTable_split tbl b)")
  case False
  with assms show ?thesis by (simp add: split_fail)
next
  case True
  note ok = split_ok [OF True]
  note mb = middle_bounds [OF ok(2)]
  let ?fs = "map first tbl" and ?tbl' = "snd (RoutingTable_split tbl b)"
  from assms have sorted: "sorted_wrt (<) ?fs" and ne: "tbl \<noteq> []" and z: "first (hd tbl) = 0"
    by (simp_all add: rt_inv_def)
  have before: "\<forall>x \<in> set (take (Suc b) ?fs). x < middle tbl b"
  proof
    fix x assume "x \<in> set (take (Suc b) ?fs)"
    then obtain j where j: "j < Suc b" "j < length ?fs" "x = ?fs ! j"
      by (auto simp: in_set_conv_nth)
    have "?fs ! j \<le> ?fs ! b"
    proof (cases "j = b")
      case True then show ?thesis by simp
    next
      case False
      with j(1) have "j < b" by simp
      from sorted_wrt_nth_less [OF sorted this] ok(1) show ?thesis by simp
    qed
    moreover have "?fs ! b < middle tbl b" using mb(2) ok(1) by (simp add: word_less_nat_alt)
    ultimately show "x < middle tbl b" using j(3) by simp
  qed
  have after: "\<forall>y \<in> set (drop (Suc b) ?fs). middle tbl b < y"
  proof
    fix y assume "y \<in> set (drop (Suc b) ?fs)"
    then obtain k where k: "k < length tbl - Suc b" "y = first (tbl ! Suc (b + k))"
      by (auto simp: in_set_conv_nth)
    define j where "j = Suc (b + k)"
    with k have j: "Suc b \<le> j" "j < length ?fs" "y = ?fs ! j" by simp_all
    then have sb: "Suc b < length tbl" by simp
    have "?fs ! Suc b \<le> ?fs ! j"
    proof (cases "j = Suc b")
      case True then show ?thesis by simp
    next
      case False
      with j(1) have "Suc b < j" by simp
      from sorted_wrt_nth_less [OF sorted this j(2)] show ?thesis by simp
    qed
    moreover have "middle tbl b < ?fs ! Suc b"
      using mb(3) sb by (simp add: bucket_end_def word_less_nat_alt)
    ultimately show "middle tbl b < y" using j(3) by simp
  qed
  have "sorted_wrt (<) (map first ?tbl')"
    unfolding ok(3) using sorted before after by (rule sorted_insert_at)
  moreover have "?tbl' \<noteq> []" using ok(4) by auto
  moreover have "first (hd ?tbl') = 0"
  proof -
    have "hd (map first ?tbl') = hd ?fs"
      unfolding ok(3) using ne by (cases tbl) simp_all
    with ne \<open>?tbl' \<noteq> []\<close> z show ?thesis by (simp add: hd_map)
  qed
  ultimately show ?thesis by (simp add: rt_inv_def)
qed


lemma coverage:
  assumes "rt_inv tbl"
  shows "\<exists>!b. contains tbl b i"
proof -
  let ?fs = "map first tbl"
  from assms have sorted: "sorted_wrt (<) ?fs" and ne: "tbl \<noteq> []" and z: "first (hd tbl) = 0"
    by (simp_all add: rt_inv_def)
  define P where "P b \<longleftrightarrow> b < length tbl \<and> first (tbl ! b) \<le> i" for b
  have P0: "P 0" using ne z by (simp add: P_def hd_conv_nth)
  have bound: "P y \<Longrightarrow> y \<le> length tbl" for y by (simp add: P_def)
  define g where "g = Greatest P"
  have Pg: "P g" unfolding g_def using P0 bound by (rule GreatestI_nat)
  have max: "y \<le> g" if "P y" for y unfolding g_def using that bound by (rule Greatest_le_nat)
  have "contains tbl g i"
  proof -
    have "i < first (tbl ! Suc g)" if "Suc g \<noteq> length tbl"
    proof (rule ccontr)
      assume "\<not> i < first (tbl ! Suc g)"
      with that Pg have "P (Suc g)" by (simp add: P_def)
      from max [OF this] show False by simp
    qed
    with Pg show ?thesis by (auto simp: contains_iff P_def)
  qed
  moreover have "b1 = b2" if c1: "contains tbl b1 i" and c2: "contains tbl b2 i" for b1 b2
  proof -
    have no: "\<not> (c < d \<and> contains tbl c i \<and> contains tbl d i)" for c d
    proof
      assume a: "c < d \<and> contains tbl c i \<and> contains tbl d i"
      then have d: "d < length tbl" "first (tbl ! d) \<le> i" and c: "i < first (tbl ! Suc c)"
        by (auto simp: contains_iff)
      have "first (tbl ! Suc c) \<le> first (tbl ! d)"
      proof (cases "Suc c = d")
        case True then show ?thesis by simp
      next
        case False
        with a have lt: "Suc c < d" by simp
        with d(1) have "Suc c < length tbl" by simp
        with sorted_wrt_nth_less [OF sorted lt] d(1) show ?thesis by simp
      qed
      with c d(2) show False by simp
    qed
    from no [of b1 b2] no [of b2 b1] c1 c2 show ?thesis by (meson nat_neq_iff)
  qed
  ultimately show ?thesis by blast
qed

lemma split_first_nth:
  assumes "fst (RoutingTable_split tbl b)"
  shows "j \<le> b \<Longrightarrow> first (snd (RoutingTable_split tbl b) ! j) = first (tbl ! j)"
    and "first (snd (RoutingTable_split tbl b) ! Suc b) = middle tbl b"
    and "Suc b < j \<Longrightarrow> j \<le> length tbl \<Longrightarrow>
         first (snd (RoutingTable_split tbl b) ! j) = first (tbl ! (j - 1))"
proof -
  note ok = split_ok [OF assms]
  let ?tbl' = "snd (RoutingTable_split tbl b)" and ?fs = "map first tbl"
  let ?fs' = "take (Suc b) ?fs @ [middle tbl b] @ drop (Suc b) ?fs"
  have nth': "first (?tbl' ! j) = ?fs' ! j" if "j \<le> length tbl" for j
  proof -
    from that ok(4) have "j < length ?tbl'" by simp
    then have "first (?tbl' ! j) = map first ?tbl' ! j" by simp
    with ok(3) show ?thesis by simp
  qed
  have len: "length (take (Suc b) ?fs) = Suc b" using ok(1) by simp
  show "first (?tbl' ! j) = first (tbl ! j)" if "j \<le> b"
  proof -
    from that ok(1) have "?fs' ! j = ?fs ! j" by (simp add: nth_append)
    with nth' [of j] that ok(1) show ?thesis by simp
  qed
  show "first (?tbl' ! Suc b) = middle tbl b"
  proof -
    have "?fs' ! Suc b = middle tbl b" using len by (metis append_Cons nth_append_length)
    with nth' [of "Suc b"] ok(1) show ?thesis by simp
  qed
  show "first (?tbl' ! j) = first (tbl ! (j - 1))" if "Suc b < j" "j \<le> length tbl"
  proof -
    from that obtain k where k: "j = Suc (Suc b) + k" by (metis less_iff_Suc_add add_Suc)
    with that ok(1) have "?fs' ! j = ?fs ! (j - 1)" by (simp add: nth_append)
    with nth' [OF that(2)] that show ?thesis by simp
  qed
qed

lemma split_decreases:
  assumes f: "findBucket tbl i = Some b" and s: "fst (RoutingTable_split tbl b)"
  shows "(case findBucket (snd (RoutingTable_split tbl b)) i of
            None \<Rightarrow> 0 | Some b' \<Rightarrow> bucket_width (snd (RoutingTable_split tbl b)) b')
         < bucket_width tbl b"
proof -
  note ok = split_ok [OF s]
  note mb = middle_bounds [OF ok(2)]
  note fn = split_first_nth [OF s]
  let ?tbl' = "snd (RoutingTable_split tbl b)"
  from findBucket_Some [OF f] have cb: "contains tbl b i" and least: "\<forall>j < b. \<not> contains tbl j i"
    by simp_all
  have w_lo: "bucket_width ?tbl' b < bucket_width tbl b"
  proof -
    have "bucket_end ?tbl' b = unat (middle tbl b)"
      using ok(1,4) fn(2) by (simp add: bucket_end_def)
    moreover have "first (?tbl' ! b) = first (tbl ! b)" using fn(1) by simp
    ultimately show ?thesis using mb ok(2) by (simp add: bucket_width_def)
  qed
  have w_hi: "bucket_width ?tbl' (Suc b) < bucket_width tbl b"
  proof -
    have "bucket_end ?tbl' (Suc b) = bucket_end tbl b"
      using ok(1,4) fn(3) [of "Suc (Suc b)"] by (simp add: bucket_end_def)
    then show ?thesis using mb ok(2) fn(2) by (simp add: bucket_width_def)
  qed
  show ?thesis
  proof (cases "findBucket ?tbl' i")
    case None
    with ok(2) show ?thesis by simp
  next
    case (Some b')
    from findBucket_Some [OF Some] have cb': "contains ?tbl' b' i"
      and least': "\<forall>j < b'. \<not> contains ?tbl' j i" by simp_all
    have "\<not> b' < b"
    proof
      assume lt: "b' < b"
      with fn(1) [of b'] fn(1) [of "Suc b'"] ok(1,4) cb' have "contains tbl b' i"
        by (auto simp: contains_iff)
      with least lt show False by simp
    qed
    moreover have "b' \<le> Suc b"
    proof (cases "i < middle tbl b")
      case True
      with cb fn(1) [of b] fn(2) ok(1,4) have "contains ?tbl' b i"
        by (simp add: contains_iff)
      with least' have "\<not> b < b'" by blast
      then show ?thesis by simp
    next
      case False
      have "contains ?tbl' (Suc b) i"
      proof (cases "Suc b = length tbl")
        case True
        with False fn(2) ok(4) show ?thesis by (simp add: contains_iff)
      next
        case ne: False
        with cb have "i < first (tbl ! Suc b)" by (simp add: contains_iff)
        moreover from ne ok(1) have "first (?tbl' ! Suc (Suc b)) = first (tbl ! Suc b)"
          using fn(3) [of "Suc (Suc b)"] by simp
        ultimately show ?thesis using False fn(2) ok(1,4) by (simp add: contains_iff)
      qed
      with least' have "\<not> Suc b < b'" by blast
      then show ?thesis by simp
    qed
    ultimately have "b' = b \<or> b' = Suc b" by auto
    with Some w_lo w_hi show ?thesis by auto
  qed
qed

text \<open>Each retry of the insertion works on a bucket of a smaller range.\<close>

termination RoutingTable_insert
proof (relation "measure (\<lambda>(myid, near_home, tbl, n, now).
    case findBucket tbl (node_id n) of None \<Rightarrow> 0 | Some b \<Rightarrow> bucket_width tbl b)")
  show "wf (measure (\<lambda>(myid, near_home, tbl, n, now).
    case findBucket tbl (node_id n) of None \<Rightarrow> 0 | Some b \<Rightarrow> bucket_width tbl b))"
    by simp
next
  fix myid :: InfoHash and near_home :: "RoutingTable \<Rightarrow> nat \<Rightarrow> bool"
    and tbl :: RoutingTable and n :: Node and now :: time_point and b :: nat
  assume f: "findBucket tbl (node_id n) = Some b"
    and "splittable myid near_home tbl b \<and> fst (RoutingTable_split tbl b)"
  then have "fst (RoutingTable_split tbl b)" by simp
  from split_decreases [OF f this] f
  show "((myid, near_home, snd (RoutingTable_split tbl b), n, now), (myid, near_home, tbl, n, now))
    \<in> measure (\<lambda>(myid, near_home, tbl, n, now).
        case findBucket tbl (node_id n) of None \<Rightarrow> 0 | Some b \<Rightarrow> bucket_width tbl b)"
    by simp
qed

declare RoutingTable_insert.simps [simp del]

lemma rt_inv_update:
  assumes "rt_inv tbl" and "first B = first (tbl ! b)"
  shows "rt_inv (tbl[b := B])"
proof (cases "b < length tbl")
  case False
  then have "length tbl \<le> b" by simp
  then have "tbl[b := B] = tbl" by (rule list_update_beyond)
  with assms(1) show ?thesis by simp
next
  case True
  have "map first (tbl[b := B]) = (map first tbl)[b := first B]" by (simp add: map_update)
  also have "\<dots> = map first tbl" using True assms(2) by (simp add: list_update_same_conv)
  finally have eq: "map first (tbl[b := B]) = map first tbl" .
  from assms(1) have ne: "tbl \<noteq> []" by (simp add: rt_inv_def)
  then have "hd (map first (tbl[b := B])) = first (hd (tbl[b := B]))"
    by (simp add: hd_map)
  with eq ne have "first (hd (tbl[b := B])) = first (hd tbl)" by (simp add: hd_map)
  with assms(1) eq ne show ?thesis by (simp add: rt_inv_def)
qed

lemma insert_inv:
  "rt_inv tbl \<Longrightarrow> rt_inv (RoutingTable_insert myid near_home tbl n now)"
proof (induction myid near_home tbl n now rule: RoutingTable_insert.induct)
  case (1 myid near_home tbl n now)
  show ?case
  proof (cases "findBucket tbl (node_id n)")
    case None
    with "1.prems" show ?thesis
      by (simp add: RoutingTable_insert.simps [of myid near_home tbl n now])
  next
    case (Some b)
    show ?thesis
    proof (cases "\<not> (\<exists>m \<in> set (bucket_nodes (tbl ! b)). node_id m = node_id n) \<and>
        \<not> length (bucket_nodes (tbl ! b)) < TARGET_NODES \<and>
        splittable myid near_home tbl b \<and> fst (RoutingTable_split tbl b)")
      case True
      then have "RoutingTable_insert myid near_home tbl n now =
          RoutingTable_insert myid near_home (snd (RoutingTable_split tbl b)) n now"
        using Some by (simp add: RoutingTable_insert.simps [of myid near_home tbl n now])
      moreover have "rt_inv (RoutingTable_insert myid near_home (snd (RoutingTable_split tbl b)) n now)"
        using True Some "1.prems" by (intro "1.IH") (simp_all add: split_inv)
      ultimately show ?thesis by simp
    next
      case False
      then show ?thesis using Some "1.prems"
        by (auto simp: rt_inv_update RoutingTable_insert.simps [of myid near_home tbl n now])
    qed
  qed
qed

lemma Bucket_new_inv: "rt_inv [Bucket_new a]"
  by (simp add: rt_inv_def Bucket_new_def)

lemma apply_rt_op_inv: "rt_inv tbl \<Longrightarrow> rt_inv (apply_rt_op myid near_home op tbl)"
  by (cases op) (simp_all add: insert_inv split_inv)

lemma run_rt_ops_inv: "rt_inv tbl \<Longrightarrow> rt_inv (run_rt_ops myid near_home ops tbl)"
  unfolding run_rt_ops_def
  by (induction ops arbitrary: tbl) (simp_all add: apply_rt_op_inv)

text \<open>
  C7 as stated fails: the routing table of a \<^verbatim>\<open>Dht\<close> is initialised with no bucket
  (\<^verbatim>\<open>RoutingTable buckets {}\<close>; \<^verbatim>\<open>isEmpty\<close> is true "if the table has no bucket"), and
  in such a table no bucket contains an identifier.
\<close>

theorem routing_coverage_counterexample:
  "isEmpty RoutingTable_default \<and> \<not> (\<exists>!b. contains RoutingTable_default b 5)"
  by (auto simp: isEmpty_def RoutingTable_default_def contains_iff)

text \<open>
  C7, amended: in every routing table that has a bucket, starts at the zero identifier
  and whose buckets' first identifiers increase strictly, exactly one bucket's
  half-open range contains any given identifier (the ranges are an ordered list,
  do not overlap and cover the identifier space, each ending where the next starts);
  \<^verbatim>\<open>RoutingTable::split\<close> and the insertion of a node preserve this; it holds for the
  table of the single bucket \<^verbatim>\<open>Bucket(af)\<close> and so for every table reached from it by
  insertions and splits. A table with no bucket contains no identifier.
\<close>

theorem routing_coverage:
  "(rt_inv tbl \<longrightarrow>
      (\<exists>!b. contains tbl b i) \<and>
      rt_inv (snd (RoutingTable_split tbl k)) \<and>
      rt_inv (RoutingTable_insert myid near_home tbl n now)) \<and>
   rt_inv [Bucket_new a] \<and>
   (\<exists>!b. contains (run_rt_ops myid near_home ops [Bucket_new a]) b i) \<and>
   first (hd (run_rt_ops myid near_home ops [Bucket_new a])) = 0 \<and>
   sorted_wrt (<) (map first (run_rt_ops myid near_home ops [Bucket_new a]))"
proof -
  have r: "rt_inv (run_rt_ops myid near_home ops [Bucket_new a])"
    using Bucket_new_inv by (rule run_rt_ops_inv)
  then have "first (hd (run_rt_ops myid near_home ops [Bucket_new a])) = 0"
    "sorted_wrt (<) (map first (run_rt_ops myid near_home ops [Bucket_new a]))"
    by (simp_all add: rt_inv_def)
  with coverage [OF r] show ?thesis
    by (simp add: coverage split_inv insert_inv Bucket_new_inv)
qed

lemma rt_ex_inv: "rt_inv rt_example"
  by (simp add: rt_example_def rt_inv_def)

lemma rt_ex_contains: "contains rt_example 0 5" "\<not> contains rt_example 1 5"
  by (simp_all add: rt_example_def contains_iff)

lemma rt_ex_width: "bucket_width rt_example 0 = 2 ^ 159" "bucket_width [Bucket_new 2] 0 = 2 ^ 160"
  by (simp_all add: rt_example_def Bucket_new_def bucket_width_def bucket_end_def)

lemma rt_ex_middle: "middle rt_example 0 = 2 ^ 158" "middle [Bucket_new 2] 0 = 2 ^ 159"
  by (simp_all add: middle_def rt_ex_width) (simp_all add: rt_example_def Bucket_new_def)

lemma rt_ex_split_ok: "fst (RoutingTable_split rt_example 0)"
  by (simp add: RoutingTable_split_def rt_ex_width Let_def) (simp add: rt_example_def)

lemma rt_ex_split: "map first (snd (RoutingTable_split rt_example 0)) = [0, 2 ^ 158, 2 ^ 159]"
  using split_ok(3) [OF rt_ex_split_ok] by (simp add: rt_ex_middle) (simp add: rt_example_def)

lemma rt_ex_find: "findBucket rt_example 7 = Some 0"
  by (simp add: findBucket_def contains_iff rt_example_def)

lemma rt_ex_insert:
  "map (\<lambda>B. map node_id (bucket_nodes B))
     (RoutingTable_insert 1 (\<lambda>_ _. False) rt_example (node_example 7 0) 0) = [[7], []]"
proof -
  have "findBucket rt_example (node_id (node_example 7 0)) = Some 0"
    using rt_ex_find by (simp add: node_example_def)
  then show ?thesis
    by (simp add: TARGET_NODES_def
        RoutingTable_insert.simps [of 1 "\<lambda>_ _. False" rt_example "node_example 7 0" 0])
      (simp add: rt_example_def node_example_def)
qed

lemma rt_ex_run: "run_rt_ops 1 (\<lambda>_ _. False) [RtSplit 0] [Bucket_new 2] = rt_example"
  by (simp add: run_rt_ops_def RoutingTable_split_def rt_ex_width rt_ex_middle Let_def)
    (simp add: rt_example_def Bucket_new_def)

theorem routing_coverage_witness:
  "rt_inv rt_example \<and> contains rt_example 0 5 \<and> \<not> contains rt_example 1 5 \<and>
   map first (snd (RoutingTable_split rt_example 0)) = [0, 2 ^ 158, 2 ^ 159] \<and>
   rt_inv (snd (RoutingTable_split rt_example 0)) \<and>
   map (\<lambda>B. map node_id (bucket_nodes B))
     (RoutingTable_insert 1 (\<lambda>_ _. False) rt_example (node_example 7 0) 0) = [[7], []] \<and>
   rt_inv (RoutingTable_insert 1 (\<lambda>_ _. False) rt_example (node_example 7 0) 0) \<and>
   run_rt_ops 1 (\<lambda>_ _. False) [RtSplit 0] [Bucket_new 2] = rt_example"
proof -
  from routing_coverage [of rt_example 5 0 1 "\<lambda>_ _. False" "node_example 7 0" 0 2 "[RtSplit 0]"]
    rt_ex_inv
  have "rt_inv (snd (RoutingTable_split rt_example 0))"
    "rt_inv (RoutingTable_insert 1 (\<lambda>_ _. False) rt_example (node_example 7 0) 0)"
    by blast+
  with rt_ex_inv rt_ex_contains rt_ex_split rt_ex_insert rt_ex_run show ?thesis
    by (simp)
qed

end
